theory Spec2Isabelle
  imports Main
begin

section \<open>PinCLI: a command line interpreter for digital pins and the SPI bus\<close>

text \<open>
  The sketch \<^verbatim>\<open>PinCLI_SPI.ino\<close> keeps its whole state in a few globals: the line
  buffer \<^verbatim>\<open>line_buf\<close> with the write pointer \<^verbatim>\<open>cp\<close>, the token buffer
  \<^verbatim>\<open>args\<close>, the \<^verbatim>\<open>error_flag\<close>, and the pointer that \<^verbatim>\<open>strtok\<close> saves
  between calls. The model threads a record of these through every function. What the
  sketch sends to the serial port is appended to \<open>serial_out\<close>; every call into the
  Arduino core that touches hardware is appended to \<open>hw_log\<close>; what the hardware
  answers is read from the fields \<open>pin_in\<close>, \<open>spi_miso\<close> and \<open>ram_str\<close>.
\<close>

subsection \<open>Compile-time constants\<close>

definition LINE_BUF_SIZE :: nat where "LINE_BUF_SIZE = 64"
definition ARG_BUF_SIZE :: nat where "ARG_BUF_SIZE = 16"

definition NUL :: char where "NUL = CHR 0x00"
definition BEL :: char where "BEL = CHR 0x07"
definition CR_CHAR :: char where "CR_CHAR = CHR 0x0D"
definition LF_CHAR :: char where "LF_CHAR = CHR 0x0A"
definition BKSP_CHAR :: char where "BKSP_CHAR = CHR 0x08"
definition SPACE :: char where "SPACE = CHR '' ''"

definition CLI_PROMPT :: string where "CLI_PROMPT = ''> ''"

datatype pin_mode = INPUT | INPUT_PULLUP | OUTPUT
datatype bit_order = LSBFIRST | MSBFIRST
datatype spi_mode = SPI_MODE0 | SPI_MODE1 | SPI_MODE2 | SPI_MODE3

definition LOW :: int where "LOW = 0"
definition HIGH :: int where "HIGH = 1"

definition SPI_SPEED :: nat where "SPI_SPEED = 1000000"
definition SPI_ORDER :: bit_order where "SPI_ORDER = MSBFIRST"
definition SPI_MODE :: spi_mode where "SPI_MODE = SPI_MODE0"

text \<open>The chip-select pin of every board but the Mega 2560 (the \<^verbatim>\<open>#else\<close> branch).\<close>

definition SPI_SSPIN :: int where "SPI_SSPIN = 10"

subsection \<open>The state\<close>

text \<open>
  Calls into the Arduino core, with the argument values the core receives: the sketch's
  arguments after the conversion to the parameter's type.
\<close>

datatype hw_call =
    PinMode int pin_mode
  | DigitalWrite int int
  | DigitalRead int
  | Delay nat
  | SPI_begin
  | SPI_beginTransaction nat bit_order spi_mode
  | SPI_endTransaction
  | SPI_transfer nat
  | SPI_transfer16 nat

text \<open>
  \<open>cp\<close> is the offset \<^verbatim>\<open>cp - line_buf\<close>. \<open>strtok_last\<close> is the pointer that
  \<^verbatim>\<open>strtok\<close> keeps between calls, as an offset into \<open>line_buf\<close> (the only buffer the
  sketch ever tokenizes), \<open>None\<close> for the null pointer. \<open>pin_in p\<close> is what
  \<^verbatim>\<open>digitalRead(p)\<close> returns, \<open>spi_miso k\<close> the word the bus shifts in when the
  transfer is hardware call number \<open>k\<close>, and \<open>ram_str a\<close> the null-terminated string
  that starts at data address \<open>a\<close> outside the two buffers.
\<close>

record cli_state =
  error_flag :: bool
  line_buf :: "char list"
  args :: "char list"
  cp :: nat
  strtok_last :: "nat option"
  serial_out :: "char list"
  hw_log :: "hw_call list"
  pin_in :: "int \<Rightarrow> int"
  spi_miso :: "nat \<Rightarrow> nat"
  ram_str :: "nat \<Rightarrow> char list"

subsection \<open>Serial output\<close>

definition Serial_write :: "char list \<Rightarrow> cli_state \<Rightarrow> cli_state" where
  "Serial_write s st = st\<lparr>serial_out := serial_out st @ s\<rparr>"

definition Serial_print :: "char list \<Rightarrow> cli_state \<Rightarrow> cli_state" where
  "Serial_print s st = Serial_write s st"

definition Serial_println :: "char list \<Rightarrow> cli_state \<Rightarrow> cli_state" where
  "Serial_println s st = Serial_write (s @ [CR_CHAR, LF_CHAR]) st"

definition send_prompt :: "cli_state \<Rightarrow> cli_state" where
  "send_prompt st = Serial_print CLI_PROMPT st"

subsection \<open>C library functions\<close>

text \<open>\<^verbatim>\<open>tolower\<close> in the C locale: the letters A to Z move up by 32.\<close>

definition tolower :: "char \<Rightarrow> char" where
  "tolower c = (let n = (of_char c :: nat)
                in if 65 \<le> n \<and> n \<le> 90 then char_of (n + 32) else c)"

text \<open>
  The C string that starts at offset \<open>s\<close> of a buffer: the bytes up to the first null.
  A string that no null ends runs to the end of the list. That does not happen in a
  state the sketch reaches: the line buffer keeps a null in its last byte (lemmas
  \<open>read_input_inv\<close>, \<open>get_token_line_inv\<close>, \<open>PinCLI_inv\<close> and \<open>cstr_inside\<close> below) and
  the token buffer keeps its length and a null (\<open>get_token_args_inv\<close>).
\<close>

definition cstr :: "char list \<Rightarrow> nat \<Rightarrow> char list" where
  "cstr b s = takeWhile (\<lambda>c. c \<noteq> NUL) (drop s b)"

text \<open>
  \<^verbatim>\<open>strtok(instr, " ")\<close> on the line buffer. It starts at \<open>instr\<close>, or at the saved
  pointer when \<open>instr\<close> is null; it skips the spaces, and when a token starts there it
  overwrites the space that ends the token with a null and saves the offset after it.
  The result is the offset of the token, or \<open>None\<close> for the null pointer.
\<close>

definition strtok :: "nat option \<Rightarrow> cli_state \<Rightarrow> nat option \<times> cli_state" where
  "strtok instr st =
     (case (case instr of Some s \<Rightarrow> Some s | None \<Rightarrow> strtok_last st) of
        None \<Rightarrow> (None, st)
      | Some s \<Rightarrow>
          let b = line_buf st;
              tok = s + length (takeWhile (\<lambda>c. c = SPACE) (drop s b));
              e = tok + length (takeWhile (\<lambda>c. c \<noteq> SPACE \<and> c \<noteq> NUL) (drop tok b))
          in if cstr b tok = [] then (None, st\<lparr>strtok_last := None\<rparr>)
             else if cstr b e = [] then (Some tok, st\<lparr>strtok_last := None\<rparr>)
             else (Some tok, st\<lparr>line_buf := b[e := NUL], strtok_last := Some (Suc e)\<rparr>))"

definition isspace :: "char \<Rightarrow> bool" where
  "isspace c = (c = SPACE \<or> (9 \<le> (of_char c :: nat) \<and> (of_char c :: nat) \<le> 13))"

definition isdigit :: "char \<Rightarrow> bool" where
  "isdigit c = (48 \<le> (of_char c :: nat) \<and> (of_char c :: nat) \<le> 57)"

text \<open>A 16-bit \<^verbatim>\<open>int\<close>, as on the AVR: values wrap around into \<open>-32768 .. 32767\<close>.\<close>

definition int16 :: "int \<Rightarrow> int" where
  "int16 x = (x + 32768) mod 65536 - 32768"

text \<open>
  \<^verbatim>\<open>atoi\<close>: leading white space, an optional sign, then decimal digits up to the first
  other byte; no digits give 0. The accumulator is a 16-bit \<^verbatim>\<open>int\<close>.
\<close>

definition atoi :: "char list \<Rightarrow> int" where
  "atoi s =
     (let s1 = dropWhile isspace s;
          neg = (case s1 of [] \<Rightarrow> False | c # _ \<Rightarrow> c = CHR ''-'');
          s2 = (case s1 of [] \<Rightarrow> []
                | c # r \<Rightarrow> if c = CHR ''-'' \<or> c = CHR ''+'' then r else s1);
          n = foldl (\<lambda>a d. a * 10 + (int (of_char d) - 48)) 0 (takeWhile isdigit s2)
      in int16 (if neg then - n else n))"

text \<open>\<^verbatim>\<open>Serial.print\<close> of a number, in decimal.\<close>

function print_nat :: "nat \<Rightarrow> char list" where
  "print_nat n =
     (if n < 10 then [char_of (48 + n)]
      else print_nat (n div 10) @ [char_of (48 + n mod 10)])"
  by pat_completeness auto
termination
  by (relation "measure (\<lambda>n. n)") auto

definition print_int :: "int \<Rightarrow> char list" where
  "print_int i = (if i < 0 then CHR ''-'' # print_nat (nat (- i)) else print_nat (nat i))"

subsection \<open>The line editor\<close>

text \<open>
  \<^verbatim>\<open>read_input\<close> runs while \<^verbatim>\<open>Serial.available()\<close>: the first argument is the
  bytes waiting in the receive buffer. It returns the status (1 at a carriage return,
  0 when the bytes ran out), the bytes it did not read, and the new state. The statement
  \<^verbatim>\<open>*cp == '\0';\<close> at the carriage return is a comparison and changes nothing.
\<close>

fun read_input :: "char list \<Rightarrow> cli_state \<Rightarrow> int \<times> char list \<times> cli_state" where
  "read_input [] st = (0, [], st)"
| "read_input (c # rest) st =
     (if c = LF_CHAR then read_input rest st
      else if c = CR_CHAR then (1, rest, Serial_write [CR_CHAR, LF_CHAR] st)
      else if c = BKSP_CHAR then
        read_input rest
          (if cp st > 0
           then Serial_write [BKSP_CHAR, SPACE, BKSP_CHAR]
                  (st\<lparr>cp := cp st - 1, line_buf := (line_buf st)[cp st - 1 := NUL]\<rparr>)
           else st)
      else
        let c = tolower c in
        if cp st < LINE_BUF_SIZE - 1
        then read_input rest
               (Serial_write [c] (st\<lparr>line_buf := (line_buf st)[cp st := c], cp := cp st + 1\<rparr>))
        else read_input rest
               (Serial_write [c]
                 ((send_prompt
                    (Serial_write [BEL, CR_CHAR, LF_CHAR]
                      (st\<lparr>cp := 0, line_buf := replicate LINE_BUF_SIZE NUL\<rparr>)))
                  \<lparr>line_buf := (replicate LINE_BUF_SIZE NUL)[0 := c], cp := 1\<rparr>)))"

subsection \<open>The token cursor\<close>

text \<open>
  \<^verbatim>\<open>get_token(instr, outstr)\<close>; every call of the sketch passes \<^verbatim>\<open>args\<close> for
  \<^verbatim>\<open>outstr\<close>, and \<^verbatim>\<open>line_buf\<close> (offset 0) or \<^verbatim>\<open>NULL\<close> for \<^verbatim>\<open>instr\<close>.
  \<^verbatim>\<open>strcpy\<close> writes the token and its null and leaves the rest of \<^verbatim>\<open>args\<close> as it was.
\<close>

definition strcpy_args :: "char list \<Rightarrow> cli_state \<Rightarrow> cli_state" where
  "strcpy_args s st = st\<lparr>args := s @ [NUL] @ drop (Suc (length s)) (args st)\<rparr>"

definition get_token :: "nat option \<Rightarrow> cli_state \<Rightarrow> cli_state" where
  "get_token instr st =
     (let st0 = st\<lparr>args := (args st)[0 := NUL]\<rparr> in
      case strtok instr st0 of
        (None, st1) \<Rightarrow> st1
      | (Some token, st1) \<Rightarrow>
          if length (cstr (line_buf st1) token) < ARG_BUF_SIZE
          then strcpy_args (cstr (line_buf st1) token) st1
          else (Serial_println ''Token too long.'' st1)\<lparr>error_flag := True\<rparr>)"

definition parse_cmd :: "cli_state \<Rightarrow> cli_state" where
  "parse_cmd st = get_token (Some 0) st"

subsection \<open>The command table\<close>

type_synonym status = "int option"

text \<open>
  A handler returns its \<^verbatim>\<open>int\<close> status and the new state. \<^verbatim>\<open>cmd_help\<close> is declared
  \<^verbatim>\<open>int\<close> and has no \<^verbatim>\<open>return\<close> statement: its status is \<open>None\<close>, no value.
\<close>

definition commands_str :: "string list" where
  "commands_str =
     [''delay'', ''help'', ''pmode'', ''pr'', ''pw'',
      ''spiend'', ''spirw'', ''spirw16'', ''spistart'']"

definition pmode_args :: "string list" where
  "pmode_args = [''i'', ''ip'', ''o'']"

definition spistart_arg1 :: "string list" where
  "spistart_arg1 = [''lsbfirst'', ''msbfirst'']"

definition spistart_arg2 :: "string list" where
  "spistart_arg2 = [''mode0'', ''mode1'', ''mode2'', ''mode3'']"

definition num_commands :: nat where
  "num_commands = length commands_str"

text \<open>\<^verbatim>\<open>strcmp(args, s) == 0\<close> for a string literal \<open>s\<close>.\<close>

definition args_is :: "cli_state \<Rightarrow> string \<Rightarrow> bool" where
  "args_is st s = (cstr (args st) 0 = s)"

definition hw :: "hw_call \<Rightarrow> cli_state \<Rightarrow> cli_state" where
  "hw c st = st\<lparr>hw_log := hw_log st @ [c]\<rparr>"

subsection \<open>Help texts\<close>

definition help_help :: "cli_state \<Rightarrow> cli_state" where
  "help_help st =
     Serial_println ''You can for instance type \"help pmode\" for more info on the pmode command.''
       (Serial_println []
         (fold (\<lambda>name s. Serial_println name (Serial_print ''  '' s)) commands_str
           (Serial_println ''The following commands are available:'' st)))"

definition help_delay :: "cli_state \<Rightarrow> cli_state" where
  "help_delay st =
     Serial_println ''      <milliseconds> -> number of milliseconds to delay''
       (Serial_println ''    delay <milliseconds>''
         (Serial_println ''  Pause execution for a time.  *** Serial buffer overflow danger! ***'' st))"

definition help_pmode :: "cli_state \<Rightarrow> cli_state" where
  "help_pmode st =
     Serial_println ''      <mode> -> mode indicator: I, IP, or O''
       (Serial_println ''      <pin> -> digital pin number''
         (Serial_println ''    pmode <pin> <mode>''
           (Serial_println ''  Set digital pin mode'' st)))"

definition help_pr :: "cli_state \<Rightarrow> cli_state" where
  "help_pr st =
     Serial_println ''  Returns value (0 or 1) on the specified pin.''
       (Serial_println ''      <pin> -> digital pin number''
         (Serial_println ''    pr <pin>''
           (Serial_println ''  Digital pin read'' st)))"

definition help_pw :: "cli_state \<Rightarrow> cli_state" where
  "help_pw st =
     Serial_println ''      <value> -> value to write to pin (0 or 1)''
       (Serial_println ''      <pin> -> digital pin number''
         (Serial_println ''    pw <pin> <value>''
           (Serial_println ''  Write value to digital pin'' st)))"

definition help_spiend :: "cli_state \<Rightarrow> cli_state" where
  "help_spiend st = Serial_println ''  End SPI transaction.'' st"

definition help_spirw :: "cli_state \<Rightarrow> cli_state" where
  "help_spirw st =
     Serial_println ''  Returns value read from SPI bus.''
       (Serial_println ''      <byte> -> number to write, 0 to 255''
         (Serial_println ''    spirw <byte>''
           (Serial_println ''  Read and Write one byte on SPI'' st)))"

definition help_spirw16 :: "cli_state \<Rightarrow> cli_state" where
  "help_spirw16 st =
     Serial_println ''  Returns value read from SPI bus.''
       (Serial_println ''      <value> -> number to write, 0 to 65535''
         (Serial_println ''    spirw <value>''
           (Serial_println ''  Read and Write a 16-bit (2 byte) value on SPI'' st)))"

definition help_spistart :: "cli_state \<Rightarrow> cli_state" where
  "help_spistart st =
     Serial_println ''  If arguments are missing or invalid, then defaults are used.''
       (Serial_println ''      <mode> -> SPI bus mode:  mode0, mode1, mode2, or mode3''
         (Serial_println ''      <order> -> bit order: lsbfirst or msbfirst''
           (Serial_println ''    spistart <order> <mode>''
             (Serial_println ''  Start SPI transaction.'' st))))"

subsection \<open>Command handlers\<close>

text \<open>
  \<^verbatim>\<open>pinMode\<close>, \<^verbatim>\<open>digitalWrite\<close> and \<^verbatim>\<open>digitalRead\<close> take the pin as a
  \<^verbatim>\<open>uint8_t\<close>: the handlers' 16-bit \<^verbatim>\<open>int\<close> pin number is reduced modulo 256 at the
  call. The chip-select pin is a constant below 256, which the conversion leaves as it is.
\<close>

definition uint8 :: "int \<Rightarrow> int" where
  "uint8 x = x mod 256"

text \<open>\<^verbatim>\<open>delay\<close> takes an \<^verbatim>\<open>unsigned long\<close>: a negative value wraps around.\<close>

definition cmd_delay :: "cli_state \<Rightarrow> status \<times> cli_state" where
  "cmd_delay st =
     (let st1 = get_token None st;
          val = atoi (cstr (args st1) 0)
      in (Some 0, hw (Delay (nat (val mod 4294967296))) st1))"

definition cmd_help :: "cli_state \<Rightarrow> status \<times> cli_state" where
  "cmd_help st =
     (let st1 = get_token None st in
      (None,
       if args st1 ! 0 = NUL then help_help st1
       else if args_is st1 (commands_str ! 0) then help_delay st1
       else if args_is st1 (commands_str ! 1) then help_help st1
       else if args_is st1 (commands_str ! 2) then help_pmode st1
       else if args_is st1 (commands_str ! 3) then help_pr st1
       else if args_is st1 (commands_str ! 4) then help_pw st1
       else if args_is st1 (commands_str ! 5) then help_spiend st1
       else if args_is st1 (commands_str ! 6) then help_spirw st1
       else if args_is st1 (commands_str ! 7) then help_spirw16 st1
       else if args_is st1 (commands_str ! 8) then help_spistart st1
       else help_help st1))"

definition cmd_pmode :: "cli_state \<Rightarrow> status \<times> cli_state" where
  "cmd_pmode st =
     (let st1 = get_token None st;
          pinnum = atoi (cstr (args st1) 0);
          st2 = get_token None st1
      in (Some 0,
          if args_is st2 (pmode_args ! 0) then hw (PinMode (uint8 pinnum) INPUT) st2
          else if args_is st2 (pmode_args ! 1) then hw (PinMode (uint8 pinnum) INPUT_PULLUP) st2
          else if args_is st2 (pmode_args ! 2) then hw (PinMode (uint8 pinnum) OUTPUT) st2
          else st2))"

text \<open>
  \<^verbatim>\<open>cmd_pr\<close> calls \<^verbatim>\<open>atoi(args[1])\<close>: the second byte of the token buffer, a signed
  \<^verbatim>\<open>char\<close>, is converted to a pointer, and \<^verbatim>\<open>atoi\<close> reads the string at that data
  address (the register file and the I/O space of the AVR, below the buffers).
\<close>

definition char_to_ptr :: "char \<Rightarrow> nat" where
  "char_to_ptr c = (let n = (of_char c :: nat) in if n < 128 then n else 65280 + n)"

definition cmd_pr :: "cli_state \<Rightarrow> status \<times> cli_state" where
  "cmd_pr st =
     (let st1 = get_token None st;
          pinnum = atoi (ram_str st1 (char_to_ptr (args st1 ! 1)));
          val = pin_in st1 (uint8 pinnum);
          st2 = hw (DigitalRead (uint8 pinnum)) st1
      in if LOW = val then (Some 0, Serial_println ''0'' st2)
         else if HIGH = val then (Some 1, Serial_println ''1'' st2)
         else (Some (- 1), st2))"

definition cmd_pw :: "cli_state \<Rightarrow> status \<times> cli_state" where
  "cmd_pw st =
     (let st1 = get_token None st;
          pinnum = atoi (cstr (args st1) 0);
          st2 = get_token None st1;
          val = atoi (cstr (args st2) 0)
      in (Some 0,
          if 0 = val then hw (DigitalWrite (uint8 pinnum) LOW) st2
          else if 1 = val then hw (DigitalWrite (uint8 pinnum) HIGH) st2
          else Serial_println ''Digital pin write value error'' st2))"

definition cmd_spiend :: "cli_state \<Rightarrow> status \<times> cli_state" where
  "cmd_spiend st = (Some 0, hw SPI_endTransaction (hw (DigitalWrite SPI_SSPIN HIGH) st))"

definition cmd_spirw :: "cli_state \<Rightarrow> status \<times> cli_state" where
  "cmd_spirw st =
     (let st1 = get_token None st;
          write_val = nat (atoi (cstr (args st1) 0) mod 256);
          rx_val = spi_miso st1 (length (hw_log st1)) mod 256;
          st2 = hw (SPI_transfer write_val) st1
      in (Some (int rx_val), Serial_println (print_nat rx_val) st2))"

definition cmd_spirw16 :: "cli_state \<Rightarrow> status \<times> cli_state" where
  "cmd_spirw16 st =
     (let st1 = get_token None st;
          write_val = atoi (cstr (args st1) 0);
          rx_val = int16 (int (spi_miso st1 (length (hw_log st1)) mod 65536));
          st2 = hw (SPI_transfer16 (nat (write_val mod 65536))) st1
      in (Some rx_val, Serial_println (print_int rx_val) st2))"

definition cmd_spistart :: "cli_state \<Rightarrow> status \<times> cli_state" where
  "cmd_spistart st =
     (let st1 = get_token None st;
          order = (if args_is st1 (spistart_arg1 ! 0) then LSBFIRST
                   else if args_is st1 (spistart_arg1 ! 1) then MSBFIRST
                   else SPI_ORDER);
          st2 = get_token None st1;
          mode = (if args_is st2 (spistart_arg2 ! 0) then SPI_MODE0
                  else if args_is st2 (spistart_arg2 ! 1) then SPI_MODE1
                  else if args_is st2 (spistart_arg2 ! 2) then SPI_MODE2
                  else if args_is st2 (spistart_arg2 ! 3) then SPI_MODE3
                  else SPI_MODE)
      in (Some 0,
          hw (DigitalWrite SPI_SSPIN LOW)
            (hw (SPI_beginTransaction SPI_SPEED order mode)
              (hw SPI_begin
                (hw (PinMode SPI_SSPIN OUTPUT) st2)))))"

definition commands_func :: "(cli_state \<Rightarrow> status \<times> cli_state) list" where
  "commands_func =
     [cmd_delay, cmd_help, cmd_pmode, cmd_pr, cmd_pw,
      cmd_spiend, cmd_spirw, cmd_spirw16, cmd_spistart]"

subsection \<open>Dispatch and the command cycle\<close>

text \<open>The \<^verbatim>\<open>for\<close> loop of \<^verbatim>\<open>execute\<close>, from index \<open>i\<close> on.\<close>

function execute_from :: "nat \<Rightarrow> cli_state \<Rightarrow> status \<times> cli_state" where
  "execute_from i st =
     (if i < num_commands then
        if args_is st (commands_str ! i) then (commands_func ! i) st
        else execute_from (Suc i) st
      else (Some 0, Serial_println ''Invalid command. Type \"help\" for more.'' st))"
  by pat_completeness auto
termination
  by (relation "measure (\<lambda>(i, st). num_commands - i)") auto

definition execute :: "cli_state \<Rightarrow> status \<times> cli_state" where
  "execute st =
     (if args st ! 0 = NUL then (Some 0, Serial_println ''(Empty Command)'' st)
      else execute_from 0 st)"

text \<open>
  One pass of \<^verbatim>\<open>loop()\<close>: \<^verbatim>\<open>PinCLI\<close> reads what is available and, at a complete
  line, parses, dispatches unless the error flag is set, clears both buffers and prompts.
  The result is the unread input and the new state.
\<close>

definition PinCLI :: "char list \<Rightarrow> cli_state \<Rightarrow> char list \<times> cli_state" where
  "PinCLI inp st =
     (case read_input inp st of
        (ret, rest, st1) \<Rightarrow>
          let st2 =
            (if ret > 0 then
               let sa = parse_cmd st1;
                   sb = (if \<not> error_flag sa then snd (execute sa) else sa)
               in send_prompt
                    (sb\<lparr>line_buf := replicate LINE_BUF_SIZE NUL, cp := 0,
                        args := replicate ARG_BUF_SIZE NUL\<rparr>)
             else st1)
          in (rest, st2\<lparr>error_flag := False\<rparr>))"

text \<open>The globals at reset, after \<^verbatim>\<open>PinCLI_init\<close> has sent the banner and the prompt.\<close>

definition PinCLI_init :: "(int \<Rightarrow> int) \<Rightarrow> (nat \<Rightarrow> nat) \<Rightarrow> (nat \<Rightarrow> char list) \<Rightarrow> cli_state" where
  "PinCLI_init pins miso ram =
     send_prompt
       (Serial_println ''x0.36''
         (Serial_print ''PinCLI v''
           \<lparr>error_flag = False,
            line_buf = replicate LINE_BUF_SIZE NUL,
            args = replicate ARG_BUF_SIZE NUL,
            cp = 0,
            strtok_last = None,
            serial_out = [],
            hw_log = [],
            pin_in = pins,
            spi_miso = miso,
            ram_str = ram\<rparr>))"

subsection \<open>Observers used in the statements\<close>

text \<open>The line buffer of a state that is ready for a new line: all null, pointer at 0.\<close>

definition fresh_line :: "cli_state \<Rightarrow> bool" where
  "fresh_line st = (line_buf st = replicate LINE_BUF_SIZE NUL \<and> cp st = 0)"

text \<open>
  The line editor's invariant: the pointer stays inside the buffer and every byte from
  the pointer on is null.
\<close>

definition line_inv :: "cli_state \<Rightarrow> bool" where
  "line_inv st =
     (length (line_buf st) = LINE_BUF_SIZE \<and> cp st < LINE_BUF_SIZE \<and>
      drop (cp st) (line_buf st) = replicate (LINE_BUF_SIZE - cp st) NUL)"

text \<open>
  The candidate token of an extraction call: the string \<^verbatim>\<open>strtok\<close> returns a pointer
  to, \<open>None\<close> when it returns null.
\<close>

definition next_token :: "nat option \<Rightarrow> cli_state \<Rightarrow> char list option" where
  "next_token instr st =
     (case strtok instr st of
        (None, st1) \<Rightarrow> None
      | (Some token, st1) \<Rightarrow> Some (cstr (line_buf st1) token))"

text \<open>The candidate token does not fit the token buffer.\<close>

definition too_long :: "nat option \<Rightarrow> cli_state \<Rightarrow> bool" where
  "too_long instr st =
     (case next_token instr st of None \<Rightarrow> False | Some t \<Rightarrow> ARG_BUF_SIZE \<le> length t)"

text \<open>
  \<open>n\<close> extraction calls in a row, the first with \<open>instr\<close> and the others with
  \<^verbatim>\<open>NULL\<close>, collecting the string left in \<^verbatim>\<open>args\<close> by each call.
\<close>

fun get_tokens :: "nat option \<Rightarrow> nat \<Rightarrow> cli_state \<Rightarrow> char list list \<times> cli_state" where
  "get_tokens instr 0 st = ([], st)"
| "get_tokens instr (Suc n) st =
     (let st1 = get_token instr st;
          (ts, st2) = get_tokens None n st1
      in (cstr (args st1) 0 # ts, st2))"

text \<open>Any sequence of extraction calls, each with its own \<^verbatim>\<open>instr\<close>.\<close>

fun extractions :: "nat option list \<Rightarrow> cli_state \<Rightarrow> cli_state" where
  "extractions [] st = st"
| "extractions (instr # is) st = extractions is (get_token instr st)"

subsection \<open>The specification's words, as functions\<close>

text \<open>
  The lowercased, backspace-resolved content of a byte sequence that holds no carriage
  return: a line feed is dropped, a backspace removes the last byte if there is one,
  any other byte is appended in lower case.
\<close>

definition edit_byte :: "char list \<Rightarrow> char \<Rightarrow> char list" where
  "edit_byte acc c =
     (if c = LF_CHAR then acc
      else if c = BKSP_CHAR then butlast acc
      else acc @ [tolower c])"

definition edited :: "char list \<Rightarrow> char list" where
  "edited bs = foldl edit_byte [] bs"

text \<open>The bytes never fill the buffer: after every prefix the content fits.\<close>

definition no_overflow :: "char list \<Rightarrow> bool" where
  "no_overflow bs = (\<forall>n \<le> length bs. length (edited (take n bs)) \<le> LINE_BUF_SIZE - 1)"

text \<open>The space-delimited tokens of a string: its maximal runs of bytes other than space.\<close>

fun split_acc :: "char list \<Rightarrow> char list \<Rightarrow> char list list" where
  "split_acc acc [] = (if acc = [] then [] else [acc])"
| "split_acc acc (c # cs) =
     (if c = SPACE then (if acc = [] then [] else [acc]) @ split_acc [] cs
      else split_acc (acc @ [c]) cs)"

definition split_tokens :: "char list \<Rightarrow> char list list" where
  "split_tokens l = split_acc [] l"

text \<open>
  The tokens an extraction call with \<open>instr\<close> and the calls after it have still to
  deliver: those of the C string at the point where \<^verbatim>\<open>strtok\<close> will start.
\<close>

definition pending_tokens :: "nat option \<Rightarrow> cli_state \<Rightarrow> char list list" where
  "pending_tokens instr st =
     (case (case instr of Some s \<Rightarrow> Some s | None \<Rightarrow> strtok_last st) of
        None \<Rightarrow> []
      | Some s \<Rightarrow> split_tokens (cstr (line_buf st) s))"

subsection \<open>Example states\<close>

text \<open>
  A board whose pin 7 reads low and every other pin high, whose bus shifts in zeros, and
  whose data addresses below the buffers hold null bytes.
\<close>

definition example_pins :: "int \<Rightarrow> int" where
  "example_pins p = (if p = 7 then LOW else HIGH)"

definition example_miso :: "nat \<Rightarrow> nat" where
  "example_miso k = 0"

definition example_ram :: "nat \<Rightarrow> char list" where
  "example_ram a = []"


definition boot :: cli_state where
  "boot = PinCLI_init example_pins example_miso example_ram"

text \<open>The state when \<^verbatim>\<open>read_input\<close> reports the line \<open>l\<close> typed at the first prompt.\<close>

definition typed :: "char list \<Rightarrow> cli_state" where
  "typed l = snd (snd (read_input (l @ [CR_CHAR]) boot))"

section \<open>Lemmas about the C strings and the token cursor\<close>

lemma NUL_neq_SPACE [simp]: "NUL \<noteq> SPACE" "SPACE \<noteq> NUL"
  by (simp_all add: NUL_def SPACE_def)

lemma takeWhile_drop_prefix:
  "n \<le> length (takeWhile Q xs) \<Longrightarrow> takeWhile Q (drop n xs) = drop n (takeWhile Q xs)"
proof (induction xs arbitrary: n)
  case Nil
  then show ?case by simp
next
  case (Cons x xs)
  then show ?case by (cases n) (auto split: if_splits)
qed

lemma takeWhile_update_stop:
  "n < length (takeWhile Q xs) \<Longrightarrow> \<not> Q z \<Longrightarrow> takeWhile Q (xs[n := z]) = take n (takeWhile Q xs)"
proof (induction xs arbitrary: n)
  case Nil
  then show ?case by simp
next
  case (Cons x xs)
  then show ?case by (cases n) (auto split: if_splits)
qed

lemma takeWhile_takeWhile_weaker:
  "(\<And>x. P x \<Longrightarrow> Q x) \<Longrightarrow> takeWhile P (takeWhile Q xs) = takeWhile P xs"
  by (induction xs) auto

lemma takeWhile_conj:
  "takeWhile (\<lambda>x. P x \<and> Q x) xs = takeWhile P (takeWhile Q xs)"
  by (induction xs) auto

lemma cstr_add: "n \<le> length (cstr b s) \<Longrightarrow> cstr b (s + n) = drop n (cstr b s)"
  unfolding cstr_def
  using takeWhile_drop_prefix [of n "\<lambda>c. c \<noteq> NUL" "drop s b"]
  by (simp add: add.commute)

lemma cstr_update_inside:
  assumes "s \<le> e" and "e - s < length (cstr b s)"
  shows "cstr (b[e := NUL]) s = take (e - s) (cstr b s)"
proof -
  have "drop s (b[e := NUL]) = (drop s b)[e - s := NUL]"
    using assms(1) by (simp add: drop_update_swap)
  then show ?thesis
    unfolding cstr_def
    using takeWhile_update_stop [of "e - s" "\<lambda>c. c \<noteq> NUL" "drop s b" NUL] assms(2)
    by (simp add: cstr_def)
qed

lemma cstr_update_before: "e < s \<Longrightarrow> cstr (b[e := x]) s = cstr b s"
  by (simp add: cstr_def)

lemma cstr_no_NUL: "NUL \<notin> set (cstr b s)"
  unfolding cstr_def by (auto dest: set_takeWhileD)

lemma spaces_of_cstr:
  "takeWhile (\<lambda>c. c = SPACE) (drop s b) = takeWhile (\<lambda>c. c = SPACE) (cstr b s)"
  unfolding cstr_def by (rule takeWhile_takeWhile_weaker [symmetric]) simp

lemma word_of_cstr:
  "takeWhile (\<lambda>c. c \<noteq> SPACE \<and> c \<noteq> NUL) (drop s b) = takeWhile (\<lambda>c. c \<noteq> SPACE) (cstr b s)"
  unfolding cstr_def by (rule takeWhile_conj)

text \<open>\<^verbatim>\<open>strtok\<close> in terms of the C string at its starting point.\<close>

lemma strtok_Some:
  assumes l: "l = cstr (line_buf st) s"
    and k: "k = length (takeWhile (\<lambda>c. c = SPACE) l)"
    and l1: "l1 = dropWhile (\<lambda>c. c = SPACE) l"
    and t: "t = takeWhile (\<lambda>c. c \<noteq> SPACE) l1"
  shows "strtok (Some s) st =
     (if l1 = [] then (None, st\<lparr>strtok_last := None\<rparr>)
      else if dropWhile (\<lambda>c. c \<noteq> SPACE) l1 = [] then (Some (s + k), st\<lparr>strtok_last := None\<rparr>)
      else (Some (s + k),
            st\<lparr>line_buf := (line_buf st)[s + k + length t := NUL],
               strtok_last := Some (Suc (s + k + length t))\<rparr>))"
proof -
  have F1: "length (takeWhile (\<lambda>c. c = SPACE) (drop s (line_buf st))) = k"
    by (simp add: k l spaces_of_cstr)
  have kl: "k \<le> length (cstr (line_buf st) s)"
    unfolding k l by (rule length_takeWhile_le)
  have F2: "cstr (line_buf st) (s + k) = l1"
    using cstr_add [OF kl] by (simp add: l1 l k dropWhile_eq_drop)
  have F3: "takeWhile (\<lambda>c. c \<noteq> SPACE \<and> c \<noteq> NUL) (drop (s + k) (line_buf st)) = t"
    by (simp add: word_of_cstr F2 t)
  have tl: "length t \<le> length (cstr (line_buf st) (s + k))"
    unfolding F2 t by (rule length_takeWhile_le)
  have F4: "cstr (line_buf st) (s + k + length t) = dropWhile (\<lambda>c. c \<noteq> SPACE) l1"
    using cstr_add [OF tl] by (simp add: F2 t dropWhile_eq_drop)
  show ?thesis
    unfolding strtok_def by (auto simp add: Let_def F1 F2 F3 F4)
qed


lemma length_takeWhile_less_if:
  "dropWhile P xs \<noteq> [] \<Longrightarrow> length (takeWhile P xs) < length xs"
proof -
  assume a: "dropWhile P xs \<noteq> []"
  have "length (takeWhile P xs) + length (dropWhile P xs) = length xs"
    by (metis length_append takeWhile_dropWhile_id)
  with a show ?thesis by (cases "dropWhile P xs") auto
qed

lemma strtok_None:
  "strtok None st = (case strtok_last st of None \<Rightarrow> (None, st) | Some s \<Rightarrow> strtok (Some s) st)"
  by (simp add: strtok_def split: option.splits)

lemma strtok_frame [simp]:
  "args (snd (strtok i st)) = args st"
  "cp (snd (strtok i st)) = cp st"
  "error_flag (snd (strtok i st)) = error_flag st"
  "serial_out (snd (strtok i st)) = serial_out st"
  "hw_log (snd (strtok i st)) = hw_log st"
  "pin_in (snd (strtok i st)) = pin_in st"
  "spi_miso (snd (strtok i st)) = spi_miso st"
  "ram_str (snd (strtok i st)) = ram_str st"
  by (simp_all add: strtok_def Let_def split: option.splits)

lemma strtok_args_update:
  "strtok i (st\<lparr>args := a\<rparr>) = (fst (strtok i st), (snd (strtok i st))\<lparr>args := a\<rparr>)"
  by (simp add: strtok_def Let_def split: option.splits)

lemma next_token_args_update [simp]:
  "next_token i (st\<lparr>args := a\<rparr>) = next_token i st"
  by (simp add: next_token_def strtok_args_update split: prod.splits option.splits)

lemma next_token_Some:
  "next_token (Some s) st =
     (let l1 = dropWhile (\<lambda>c. c = SPACE) (cstr (line_buf st) s)
      in if l1 = [] then None else Some (takeWhile (\<lambda>c. c \<noteq> SPACE) l1))"
proof -
  define l where "l = cstr (line_buf st) s"
  define k where "k = length (takeWhile (\<lambda>c. c = SPACE) l)"
  define l1 where "l1 = dropWhile (\<lambda>c. c = SPACE) l"
  define t where "t = takeWhile (\<lambda>c. c \<noteq> SPACE) l1"
  note S = strtok_Some [OF l_def k_def l1_def t_def]
  have kl: "k \<le> length (cstr (line_buf st) s)"
    unfolding k_def l_def by (rule length_takeWhile_le)
  have F2: "cstr (line_buf st) (s + k) = l1"
    using cstr_add [OF kl] by (simp add: l1_def l_def k_def dropWhile_eq_drop)
  consider (none) "l1 = []"
    | (last) "l1 \<noteq> []" "dropWhile (\<lambda>c. c \<noteq> SPACE) l1 = []"
    | (more) "l1 \<noteq> []" "dropWhile (\<lambda>c. c \<noteq> SPACE) l1 \<noteq> []"
    by blast
  then have "next_token (Some s) st = (if l1 = [] then None else Some t)"
  proof cases
    case none
    then show ?thesis by (simp add: next_token_def S)
  next
    case last
    then have "t = l1" by (simp add: t_def)
    with last show ?thesis by (simp add: next_token_def S F2)
  next
    case more
    have lt: "length t < length l1"
      using more(2) unfolding t_def
      by (rule length_takeWhile_less_if)
    have "cstr ((line_buf st)[s + k + length t := NUL]) (s + k) = take (length t) l1"
      using cstr_update_inside [of "s + k" "s + k + length t" "line_buf st"] lt
      by (simp add: F2)
    also have "\<dots> = t"
      unfolding t_def by (simp add: takeWhile_eq_take [symmetric])
    finally show ?thesis using more by (auto simp add: next_token_def S)
  qed
  then show ?thesis by (simp add: Let_def l1_def l_def t_def)
qed

lemma Serial_write_simps [simp]:
  "serial_out (Serial_write s st) = serial_out st @ s"
  "line_buf (Serial_write s st) = line_buf st"
  "cp (Serial_write s st) = cp st"
  "args (Serial_write s st) = args st"
  "error_flag (Serial_write s st) = error_flag st"
  "strtok_last (Serial_write s st) = strtok_last st"
  "hw_log (Serial_write s st) = hw_log st"
  "pin_in (Serial_write s st) = pin_in st"
  "spi_miso (Serial_write s st) = spi_miso st"
  "ram_str (Serial_write s st) = ram_str st"
  by (simp_all add: Serial_write_def)

lemma get_token_eq:
  "get_token i st =
     (case next_token i st of
        None \<Rightarrow> (snd (strtok i st))\<lparr>args := (args st)[0 := NUL]\<rparr>
      | Some t \<Rightarrow>
          if length t < ARG_BUF_SIZE
          then (snd (strtok i st))\<lparr>args := t @ [NUL] @ drop (Suc (length t)) (args st)\<rparr>
          else (snd (strtok i st))
                 \<lparr>args := (args st)[0 := NUL],
                  serial_out := serial_out st @ ''Token too long.'' @ [CR_CHAR, LF_CHAR],
                  error_flag := True\<rparr>)"
proof (cases "strtok i st")
  case (Pair r st1)
  have "serial_out st1 = serial_out st" "args st1 = args st"
    using strtok_frame(4) [of i st] strtok_frame(1) [of i st] Pair by simp_all
  with Pair show ?thesis
    by (cases r)
       (simp_all add: get_token_def next_token_def strtok_args_update strcpy_args_def
          Serial_println_def Serial_write_def)
qed

lemma next_token_no_NUL: "next_token i st = Some t \<Longrightarrow> NUL \<notin> set t"
  by (auto simp: next_token_def cstr_no_NUL split: prod.splits option.splits)

lemma cstr_terminated: "NUL \<notin> set t \<Longrightarrow> cstr (t @ NUL # r) 0 = t"
  by (auto simp add: cstr_def takeWhile_tail)

lemma cstr_update0: "cstr (a[0 := NUL]) 0 = []"
  by (cases a) (simp_all add: cstr_def)

lemma get_token_cstr_args:
  "cstr (args (get_token i st)) 0 =
     (case next_token i st of
        None \<Rightarrow> []
      | Some t \<Rightarrow> if length t < ARG_BUF_SIZE then t else [])"
  by (auto simp: get_token_eq cstr_update0 cstr_terminated dest: next_token_no_NUL
      split: option.splits)

lemma get_token_frame [simp]:
  "line_buf (get_token i st) = line_buf (snd (strtok i st))"
  "strtok_last (get_token i st) = strtok_last (snd (strtok i st))"
  "cp (get_token i st) = cp st"
  "hw_log (get_token i st) = hw_log st"
  "pin_in (get_token i st) = pin_in st"
  "spi_miso (get_token i st) = spi_miso st"
  "ram_str (get_token i st) = ram_str st"
  by (simp_all add: get_token_eq split: option.splits)

lemma get_token_error_flag:
  "error_flag (get_token i st) = (error_flag st \<or> too_long i st)"
  by (auto simp: get_token_eq too_long_def split: option.splits)

lemma get_token_serial_out:
  "serial_out (get_token i st) =
     serial_out st @ (if too_long i st then ''Token too long.'' @ [CR_CHAR, LF_CHAR] else [])"
  by (auto simp: get_token_eq too_long_def split: option.splits)

lemma cstr_offsets:
  assumes l: "l = cstr b s"
    and k: "k = length (takeWhile (\<lambda>c. c = SPACE) l)"
    and l1: "l1 = dropWhile (\<lambda>c. c = SPACE) l"
    and t: "t = takeWhile (\<lambda>c. c \<noteq> SPACE) l1"
  shows "cstr b (s + k) = l1"
    and "cstr b (s + k + length t) = dropWhile (\<lambda>c. c \<noteq> SPACE) l1"
proof -
  have kl: "k \<le> length (cstr b s)"
    unfolding k l by (rule length_takeWhile_le)
  show F2: "cstr b (s + k) = l1"
    using cstr_add [OF kl] by (simp add: l1 l k dropWhile_eq_drop)
  have tl: "length t \<le> length (cstr b (s + k))"
    unfolding F2 t by (rule length_takeWhile_le)
  show "cstr b (s + k + length t) = dropWhile (\<lambda>c. c \<noteq> SPACE) l1"
    using cstr_add [OF tl] by (simp add: F2 t dropWhile_eq_drop)
qed

lemma cstr_nonempty: "cstr b e \<noteq> [] \<Longrightarrow> e < length b \<and> b ! e = hd (cstr b e)"
proof -
  assume a: "cstr b e \<noteq> []"
  then have "drop e b \<noteq> []" by (auto simp: cstr_def)
  then have e: "e < length b" by simp
  then have "drop e b = b ! e # drop (Suc e) b" by (simp add: Cons_nth_drop_Suc)
  with a e show ?thesis by (auto simp: cstr_def split: if_splits)
qed

text \<open>What one \<^verbatim>\<open>strtok\<close> call does to the line buffer.\<close>

lemma strtok_line_buf:
  "line_buf (snd (strtok i st)) = line_buf st \<or>
   (\<exists>e < length (line_buf st). line_buf st ! e = SPACE \<and>
      line_buf (snd (strtok i st)) = (line_buf st)[e := NUL])"
proof -
  have S: "line_buf (snd (strtok (Some s) st)) = line_buf st \<or>
   (\<exists>e < length (line_buf st). line_buf st ! e = SPACE \<and>
      line_buf (snd (strtok (Some s) st)) = (line_buf st)[e := NUL])" for s
  proof -
    define l where "l = cstr (line_buf st) s"
    define k where "k = length (takeWhile (\<lambda>c. c = SPACE) l)"
    define l1 where "l1 = dropWhile (\<lambda>c. c = SPACE) l"
    define t where "t = takeWhile (\<lambda>c. c \<noteq> SPACE) l1"
    define e where "e = s + k + length t"
    note S = strtok_Some [OF l_def k_def l1_def t_def]
    note O = cstr_offsets [OF l_def k_def l1_def t_def]
    show ?thesis
    proof (cases "l1 \<noteq> [] \<and> dropWhile (\<lambda>c. c \<noteq> SPACE) l1 \<noteq> []")
      case True
      then have ne: "cstr (line_buf st) e \<noteq> []" by (simp add: O e_def)
      have "hd (cstr (line_buf st) e) = SPACE"
        using True hd_dropWhile [of "\<lambda>c. c \<noteq> SPACE" l1] by (simp add: O e_def)
      with cstr_nonempty [OF ne] have "e < length (line_buf st)" "line_buf st ! e = SPACE"
        by simp_all
      moreover have "line_buf (snd (strtok (Some s) st)) = (line_buf st)[e := NUL]"
        using True by (auto simp add: S e_def)
      ultimately show ?thesis by blast
    next
      case False
      then show ?thesis by (auto simp: S)
    qed
  qed
  show ?thesis
  proof (cases i)
    case None
    then show ?thesis using S by (cases "strtok_last st") (auto simp: strtok_None)
  next
    case (Some s)
    then show ?thesis using S by simp
  qed
qed


lemma next_token_cong: "line_buf st' = line_buf st \<Longrightarrow> next_token (Some s) st' = next_token (Some s) st"
  by (simp add: next_token_Some)

lemma next_token_after_strtok:
  "next_token (Some s) (snd (strtok (Some s) st)) = next_token (Some s) st"
proof -
  define l where "l = cstr (line_buf st) s"
  define k where "k = length (takeWhile (\<lambda>c. c = SPACE) l)"
  define l1 where "l1 = dropWhile (\<lambda>c. c = SPACE) l"
  define t where "t = takeWhile (\<lambda>c. c \<noteq> SPACE) l1"
  note S = strtok_Some [OF l_def k_def l1_def t_def]
  show ?thesis
  proof (cases "l1 \<noteq> [] \<and> dropWhile (\<lambda>c. c \<noteq> SPACE) l1 \<noteq> []")
    case False
    then have "line_buf (snd (strtok (Some s) st)) = line_buf st" by (auto simp: S)
    then show ?thesis by (rule next_token_cong)
  next
    case True
    have lt: "length t < length l1"
      using True unfolding t_def by (simp add: length_takeWhile_less_if)
    have ll: "l = takeWhile (\<lambda>c. c = SPACE) l @ l1"
      by (simp add: l1_def)
    have len: "length l = k + length l1"
      using arg_cong [OF ll, of length] by (simp add: k_def)
    have b': "line_buf (snd (strtok (Some s) st)) = (line_buf st)[s + k + length t := NUL]"
      using True by (auto simp: S)
    have "cstr ((line_buf st)[s + k + length t := NUL]) s = take (k + length t) l"
      using cstr_update_inside [of s "s + k + length t" "line_buf st"] lt len
      by (simp add: l_def)
    also have "\<dots> = takeWhile (\<lambda>c. c = SPACE) l @ take (length t) l1"
      by (subst ll) (simp add: k_def)
    also have "take (length t) l1 = t"
      unfolding t_def by (simp add: takeWhile_eq_take [symmetric])
    finally have c': "cstr (line_buf (snd (strtok (Some s) st))) s = takeWhile (\<lambda>c. c = SPACE) l @ t"
      by (simp add: b')
    have tne: "t \<noteq> []" "hd t \<noteq> SPACE"
    proof -
      from True have "l1 \<noteq> []" by simp
      then have h: "hd l1 \<noteq> SPACE"
        using hd_dropWhile [of "\<lambda>c. c = SPACE" l] by (simp add: l1_def)
      with \<open>l1 \<noteq> []\<close> show "t \<noteq> []" "hd t \<noteq> SPACE"
        by (cases l1; simp add: t_def)+
    qed
    have "dropWhile (\<lambda>c. c = SPACE) (takeWhile (\<lambda>c. c = SPACE) l @ t) =
            dropWhile (\<lambda>c. c = SPACE) t"
      by (rule dropWhile_append2) (auto dest: set_takeWhileD)
    then have d: "dropWhile (\<lambda>c. c = SPACE) (takeWhile (\<lambda>c. c = SPACE) l @ t) = t"
      using tne by (cases t) auto
    have tt: "takeWhile (\<lambda>c. c \<noteq> SPACE) t = t"
      unfolding t_def by simp
    have "next_token (Some s) (snd (strtok (Some s) st)) = Some t"
      using tne(1) by (simp add: next_token_Some c' d tt)
    moreover have "next_token (Some s) st = Some t"
      using True unfolding next_token_Some l_def [symmetric] Let_def l1_def [symmetric] t_def [symmetric]
      by simp
    ultimately show ?thesis by simp
  qed
qed

lemma next_token_after_get_token:
  "next_token (Some s) (get_token (Some s) st) = next_token (Some s) st"
  using next_token_after_strtok [of s st]
        next_token_cong [of "get_token (Some s) st" "snd (strtok (Some s) st)" s]
  by simp

lemma too_long_after_get_token:
  "too_long (Some s) (get_token (Some s) st) = too_long (Some s) st"
  by (simp add: too_long_def next_token_after_get_token)

subsection \<open>Lemmas about dispatch and the error flag\<close>

lemma execute_from_skip:
  "\<forall>j. i \<le> j \<and> j < k \<longrightarrow> \<not> args_is st (commands_str ! j) \<Longrightarrow> i \<le> k \<Longrightarrow> k \<le> num_commands
   \<Longrightarrow> execute_from i st = execute_from k st"
proof (induction "k - i" arbitrary: i)
  case 0
  then show ?case by simp
next
  case (Suc d)
  then have "i < k" by simp
  with Suc.prems have "\<not> args_is st (commands_str ! i)" "i < num_commands" by auto
  then have "execute_from i st = execute_from (Suc i) st"
    by (subst execute_from.simps) simp
  also have "\<dots> = execute_from k st"
    using Suc.hyps(1)[of "Suc i"] Suc.hyps(2) Suc.prems \<open>i < k\<close> by auto
  finally show ?case .
qed

lemma commands_str_distinct: "distinct commands_str"
  by (simp add: commands_str_def)


lemma strtok_state:
  "snd (strtok i st) =
     st\<lparr>line_buf := line_buf (snd (strtok i st)), strtok_last := strtok_last (snd (strtok i st))\<rparr>"
  by (simp add: strtok_def Let_def split: option.splits)

lemma get_token_too_long:
  assumes "too_long i st"
  shows "get_token i st =
     st\<lparr>error_flag := True,
        line_buf := line_buf (snd (strtok i st)),
        args := (args st)[0 := NUL],
        strtok_last := strtok_last (snd (strtok i st)),
        serial_out := serial_out st @ ''Token too long.'' @ [CR_CHAR, LF_CHAR]\<rparr>"
proof -
  from assms obtain t where t: "next_token i st = Some t" "\<not> length t < ARG_BUF_SIZE"
    by (auto simp: too_long_def split: option.splits)
  obtain lb sl where X: "snd (strtok i st) = st\<lparr>line_buf := lb, strtok_last := sl\<rparr>"
    using strtok_state [of i st] by blast
  show ?thesis
    unfolding get_token_eq using t by (simp add: X)
qed


section \<open>The line editor\<close>

text \<open>
  Claim C4. In a state whose line buffer holds \<open>LINE_BUF_SIZE - 1\<close> characters, one more
  byte that is no carriage return, line feed or backspace makes \<^verbatim>\<open>read_input\<close> discard
  the line once: the buffer becomes the lowercased byte followed by nulls, the pointer is
  1, the output grows by the bell, CR, LF, the prompt and the echo of the byte, and the
  loop goes on with the rest of the input; when that byte was the last one available the
  status is 0, not line complete. The byte kept is the byte the buffer rejected, which
  \<^verbatim>\<open>tolower\<close> had already normalised.
\<close>

theorem overflow_restarts_line:
  assumes "cp st = LINE_BUF_SIZE - 1"
    and "c \<noteq> CR_CHAR" and "c \<noteq> LF_CHAR" and "c \<noteq> BKSP_CHAR"
  shows "read_input (c # rest) st =
           read_input rest
             (st\<lparr>line_buf := tolower c # replicate (LINE_BUF_SIZE - 1) NUL, cp := 1,
                 serial_out := serial_out st @ [BEL, CR_CHAR, LF_CHAR] @ CLI_PROMPT @ [tolower c]\<rparr>)
         \<and> read_input [c] st =
           (0, [], st\<lparr>line_buf := tolower c # replicate (LINE_BUF_SIZE - 1) NUL, cp := 1,
                 serial_out := serial_out st @ [BEL, CR_CHAR, LF_CHAR] @ CLI_PROMPT @ [tolower c]\<rparr>)"
proof -
  have upd: "(replicate LINE_BUF_SIZE NUL)[0 := tolower c] = tolower c # replicate (LINE_BUF_SIZE - 1) NUL"
    by (simp add: LINE_BUF_SIZE_def numeral_eq_Suc)
  have step: "read_input (c # r) st =
           read_input r
             (st\<lparr>line_buf := tolower c # replicate (LINE_BUF_SIZE - 1) NUL, cp := 1,
                 serial_out := serial_out st @ [BEL, CR_CHAR, LF_CHAR] @ CLI_PROMPT @ [tolower c]\<rparr>)" for r
    using assms
    by (simp add: Let_def upd send_prompt_def Serial_print_def Serial_write_def)
  show ?thesis using step [of rest] step [of "[]"] by simp
qed

theorem overflow_restarts_line_witness:
  "read_input [CHR ''B''] (typed (replicate 63 (CHR ''a''))) =
     (0, [],
      (typed (replicate 63 (CHR ''a'')))
        \<lparr>line_buf := tolower (CHR ''B'') # replicate (LINE_BUF_SIZE - 1) NUL, cp := 1,
         serial_out := serial_out (typed (replicate 63 (CHR ''a''))) @
           [BEL, CR_CHAR, LF_CHAR] @ CLI_PROMPT @ [tolower (CHR ''B'')]\<rparr>)"
proof -
  have full: "cp (typed (replicate 63 (CHR ''a''))) = LINE_BUF_SIZE - 1"
    by code_simp
  have ord: "CHR ''B'' \<noteq> CR_CHAR" "CHR ''B'' \<noteq> LF_CHAR" "CHR ''B'' \<noteq> BKSP_CHAR"
    by (simp_all add: CR_CHAR_def LF_CHAR_def BKSP_CHAR_def)
  show ?thesis
    using overflow_restarts_line [OF full ord, of "[]"] by (rule conjunct2)
qed

section \<open>The token cursor\<close>

lemma take_takeWhile_prefix:
  "n \<le> length (takeWhile P xs) \<Longrightarrow> take n (takeWhile P xs) = take n xs"
proof (induction xs arbitrary: n)
  case Nil
  then show ?case by simp
next
  case (Cons x xs)
  then show ?case by (cases n) (auto split: if_splits)
qed

lemma cstr_empty_iff: "cstr b e = [] \<longleftrightarrow> (length b \<le> e \<or> b ! e = NUL)"
proof (cases "e < length b")
  case True
  then have "drop e b = b ! e # drop (Suc e) b" by (simp add: Cons_nth_drop_Suc)
  then show ?thesis using True by (simp add: cstr_def)
next
  case False
  then show ?thesis by (simp add: cstr_def)
qed

text \<open>Where the token of one \<^verbatim>\<open>strtok\<close> call lies and which byte the call writes.\<close>

lemma strtok_token_Some:
  assumes tok: "fst (strtok (Some s) st) = Some tok"
    and nt: "next_token (Some s) st = Some t"
  shows "t \<noteq> [] \<and> SPACE \<notin> set t \<and> NUL \<notin> set t \<and>
         take (length t) (drop tok (line_buf st)) = t \<and>
         (tok + length t < length (line_buf st) \<longrightarrow>
            line_buf st ! (tok + length t) = SPACE \<or> line_buf st ! (tok + length t) = NUL) \<and>
         line_buf (snd (strtok (Some s) st)) =
           (if tok + length t < length (line_buf st) \<and> line_buf st ! (tok + length t) = SPACE
            then (line_buf st)[tok + length t := NUL] else line_buf st)"
proof -
  define l where "l = cstr (line_buf st) s"
  define k where "k = length (takeWhile (\<lambda>c. c = SPACE) l)"
  define l1 where "l1 = dropWhile (\<lambda>c. c = SPACE) l"
  define t' where "t' = takeWhile (\<lambda>c. c \<noteq> SPACE) l1"
  define e where "e = s + k + length t'"
  note S = strtok_Some [OF l_def k_def l1_def t'_def]
  note O = cstr_offsets [OF l_def k_def l1_def t'_def]
  have N: "next_token (Some s) st = (if l1 = [] then None else Some t')"
    by (simp add: next_token_Some Let_def l_def l1_def t'_def)
  from nt N have ne: "l1 \<noteq> []" and t: "t = t'"
    by (auto split: if_splits)
  from tok ne have tk: "tok = s + k"
    by (auto simp: S split: if_splits)
  have et: "tok + length t = e"
    by (simp add: tk t e_def)
  have "hd l1 \<noteq> SPACE"
    using ne hd_dropWhile [of "\<lambda>c. c = SPACE" l] by (simp add: l1_def)
  with ne have tne: "t' \<noteq> []"
    by (cases l1) (auto simp: t'_def)
  have sp: "SPACE \<notin> set t'"
    by (auto simp: t'_def dest: set_takeWhileD)
  have "set t' \<subseteq> set l1"
    by (auto simp: t'_def dest: set_takeWhileD)
  moreover have "NUL \<notin> set l1"
    using cstr_no_NUL [of "line_buf st" "s + k"] by (simp add: O)
  ultimately have nul: "NUL \<notin> set t'" by blast
  have "take (length t') (drop (s + k) (line_buf st)) = take (length t') l1"
    using take_takeWhile_prefix [of "length t'" "\<lambda>c. c \<noteq> NUL" "drop (s + k) (line_buf st)"]
          O(1) length_takeWhile_le [of "\<lambda>c. c \<noteq> SPACE" l1]
    by (simp add: cstr_def t'_def)
  also have "\<dots> = t'"
    unfolding t'_def by (simp add: takeWhile_eq_take [symmetric])
  finally have here: "take (length t') (drop (s + k) (line_buf st)) = t'" .
  have ce: "cstr (line_buf st) e = dropWhile (\<lambda>c. c \<noteq> SPACE) l1"
    by (simp add: O e_def)
  have "e < length (line_buf st) \<longrightarrow> line_buf st ! e = SPACE \<or> line_buf st ! e = NUL"
  proof (cases "dropWhile (\<lambda>c. c \<noteq> SPACE) l1 = []")
    case True
    then have "cstr (line_buf st) e = []" by (simp add: ce)
    then show ?thesis by (auto simp: cstr_empty_iff)
  next
    case False
    then have "hd (cstr (line_buf st) e) = SPACE"
      using hd_dropWhile [of "\<lambda>c. c \<noteq> SPACE" l1] by (simp add: ce)
    moreover have "cstr (line_buf st) e \<noteq> []" using False by (simp add: ce)
    ultimately show ?thesis using cstr_nonempty [of "line_buf st" e] by simp
  qed
  moreover have "line_buf (snd (strtok (Some s) st)) =
           (if e < length (line_buf st) \<and> line_buf st ! e = SPACE
            then (line_buf st)[e := NUL] else line_buf st)"
  proof (cases "dropWhile (\<lambda>c. c \<noteq> SPACE) l1 = []")
    case True
    then have "cstr (line_buf st) e = []" by (simp add: ce)
    then have "\<not> (e < length (line_buf st) \<and> line_buf st ! e = SPACE)"
      by (auto simp: cstr_empty_iff)
    moreover have "line_buf (snd (strtok (Some s) st)) = line_buf st"
      using ne True by (auto simp: S)
    ultimately show ?thesis by auto
  next
    case False
    then have "hd (cstr (line_buf st) e) = SPACE"
      using hd_dropWhile [of "\<lambda>c. c \<noteq> SPACE" l1] by (simp add: ce)
    moreover have "cstr (line_buf st) e \<noteq> []" using False by (simp add: ce)
    ultimately have "e < length (line_buf st) \<and> line_buf st ! e = SPACE"
      using cstr_nonempty [of "line_buf st" e] by simp
    moreover have "line_buf (snd (strtok (Some s) st)) = (line_buf st)[e := NUL]"
      using ne False by (auto simp: S e_def)
    ultimately show ?thesis by auto
  qed
  ultimately show ?thesis
    using tne sp nul here unfolding et by (simp add: t tk)
qed

lemma strtok_token:
  assumes "fst (strtok i st) = Some tok" and "next_token i st = Some t"
  shows "t \<noteq> [] \<and> SPACE \<notin> set t \<and> NUL \<notin> set t \<and>
         take (length t) (drop tok (line_buf st)) = t \<and>
         (tok + length t < length (line_buf st) \<longrightarrow>
            line_buf st ! (tok + length t) = SPACE \<or> line_buf st ! (tok + length t) = NUL) \<and>
         line_buf (snd (strtok i st)) =
           (if tok + length t < length (line_buf st) \<and> line_buf st ! (tok + length t) = SPACE
            then (line_buf st)[tok + length t := NUL] else line_buf st)"
proof (cases i)
  case (Some s)
  with assms show ?thesis using strtok_token_Some [of s st tok t] by simp
next
  case None
  show ?thesis
  proof (cases "strtok_last st")
    case None
    with \<open>i = None\<close> assms(1) show ?thesis by (simp add: strtok_None)
  next
    case (Some s)
    with \<open>i = None\<close> have eq: "strtok i st = strtok (Some s) st"
      by (simp add: strtok_None)
    then have "next_token i st = next_token (Some s) st"
      by (simp add: next_token_def)
    with assms eq show ?thesis using strtok_token_Some [of s st tok t] by simp
  qed
qed

lemma strtok_no_token:
  "next_token i st = None \<Longrightarrow> line_buf (snd (strtok i st)) = line_buf st"
  by (auto simp: next_token_def strtok_def Let_def split: option.splits prod.splits if_splits)

text \<open>
  Claim C2, as amended. The token cursor does write into the line buffer. An extraction
  call that finds no token changes nothing. A call that finds the token \<open>t\<close> at offset
  \<open>tok\<close> finds it as it stands in the buffer, without space or null; the byte after it
  is a space or the null that ends the line (or the end of the array). When it is a
  space, the call overwrites exactly that byte with a null; otherwise it changes
  nothing. A token that fits is the string the call leaves in \<^verbatim>\<open>args\<close>. So one call
  changes at most one byte, and after any sequence of calls the buffer has its length
  and each of its bytes is either what it was or a former space that is now null.
\<close>

theorem extraction_writes_only_terminators:
  "(next_token i st = None \<longrightarrow> line_buf (get_token i st) = line_buf st) \<and>
   (fst (strtok i st) = Some tok \<and> next_token i st = Some t \<longrightarrow>
      t \<noteq> [] \<and> SPACE \<notin> set t \<and> NUL \<notin> set t \<and>
      take (length t) (drop tok (line_buf st)) = t \<and>
      (length t < ARG_BUF_SIZE \<longrightarrow> cstr (args (get_token i st)) 0 = t) \<and>
      (tok + length t < length (line_buf st) \<longrightarrow>
         line_buf st ! (tok + length t) = SPACE \<or> line_buf st ! (tok + length t) = NUL) \<and>
      line_buf (get_token i st) =
        (if tok + length t < length (line_buf st) \<and> line_buf st ! (tok + length t) = SPACE
         then (line_buf st)[tok + length t := NUL] else line_buf st)) \<and>
   (line_buf (get_token i st) = line_buf st \<or>
     (\<exists>e < length (line_buf st). line_buf st ! e = SPACE \<and>
        line_buf (get_token i st) = (line_buf st)[e := NUL])) \<and>
   length (line_buf (extractions is st)) = length (line_buf st) \<and>
   (\<forall>j < length (line_buf st).
      line_buf (extractions is st) ! j = line_buf st ! j \<or>
      (line_buf st ! j = SPACE \<and> line_buf (extractions is st) ! j = NUL))"
proof -
  have none: "next_token i st = None \<longrightarrow> line_buf (get_token i st) = line_buf st"
    by (simp add: strtok_no_token)
  have some: "fst (strtok i st) = Some tok \<and> next_token i st = Some t \<longrightarrow>
      t \<noteq> [] \<and> SPACE \<notin> set t \<and> NUL \<notin> set t \<and>
      take (length t) (drop tok (line_buf st)) = t \<and>
      (length t < ARG_BUF_SIZE \<longrightarrow> cstr (args (get_token i st)) 0 = t) \<and>
      (tok + length t < length (line_buf st) \<longrightarrow>
         line_buf st ! (tok + length t) = SPACE \<or> line_buf st ! (tok + length t) = NUL) \<and>
      line_buf (get_token i st) =
        (if tok + length t < length (line_buf st) \<and> line_buf st ! (tok + length t) = SPACE
         then (line_buf st)[tok + length t := NUL] else line_buf st)"
  proof
    assume a: "fst (strtok i st) = Some tok \<and> next_token i st = Some t"
    then have 1: "fst (strtok i st) = Some tok" and 2: "next_token i st = Some t"
      by simp_all
    have "length t < ARG_BUF_SIZE \<longrightarrow> cstr (args (get_token i st)) 0 = t"
      by (simp add: get_token_cstr_args 2)
    then show "t \<noteq> [] \<and> SPACE \<notin> set t \<and> NUL \<notin> set t \<and>
      take (length t) (drop tok (line_buf st)) = t \<and>
      (length t < ARG_BUF_SIZE \<longrightarrow> cstr (args (get_token i st)) 0 = t) \<and>
      (tok + length t < length (line_buf st) \<longrightarrow>
         line_buf st ! (tok + length t) = SPACE \<or> line_buf st ! (tok + length t) = NUL) \<and>
      line_buf (get_token i st) =
        (if tok + length t < length (line_buf st) \<and> line_buf st ! (tok + length t) = SPACE
         then (line_buf st)[tok + length t := NUL] else line_buf st)"
      using strtok_token [OF 1 2] by simp
  qed
  have one: "line_buf (get_token i st) = line_buf st \<or>
     (\<exists>e < length (line_buf st). line_buf st ! e = SPACE \<and>
        line_buf (get_token i st) = (line_buf st)[e := NUL])" for i st
    using strtok_line_buf [of i st] by simp
  have step: "length (line_buf (get_token i st)) = length (line_buf st) \<and>
     (\<forall>j < length (line_buf st).
        line_buf (get_token i st) ! j = line_buf st ! j \<or>
        (line_buf st ! j = SPACE \<and> line_buf (get_token i st) ! j = NUL))" for i st
    using one [of i st] by (auto simp: nth_list_update split: if_splits)
  have many: "length (line_buf (extractions is st)) = length (line_buf st) \<and>
     (\<forall>j < length (line_buf st).
        line_buf (extractions is st) ! j = line_buf st ! j \<or>
        (line_buf st ! j = SPACE \<and> line_buf (extractions is st) ! j = NUL))"
  proof (induction "is" arbitrary: st)
    case Nil
    then show ?case by simp
  next
    case (Cons i "is")
    show ?case
      using step [of i st] Cons.IH [of "get_token i st"]
      by (simp del: get_token_frame) metis
  qed
  show ?thesis using none some one many by blast
qed

theorem extraction_writes_only_terminators_witness:
  "line_buf (typed ''pr 7'') ! 2 = SPACE \<and>
   line_buf (get_token (Some 0) (typed ''pr 7'')) = (line_buf (typed ''pr 7''))[2 := NUL] \<and>
   line_buf (extractions [Some 0, None] (typed ''pr 7'')) ! 2 = NUL"
proof -
  have len: "2 < length (line_buf (typed ''pr 7''))"
    by code_simp
  have sp: "line_buf (typed ''pr 7'') ! 2 = SPACE"
    by code_simp
  have tok: "fst (strtok (Some 0) (typed ''pr 7'')) = Some 0"
    by code_simp
  have nt: "next_token (Some 0) (typed ''pr 7'') = Some ''pr''"
    by code_simp
  have changed: "line_buf (extractions [Some 0, None] (typed ''pr 7'')) ! 2 \<noteq>
                 line_buf (typed ''pr 7'') ! 2"
    by code_simp
  have "line_buf (get_token (Some 0) (typed ''pr 7'')) = (line_buf (typed ''pr 7''))[2 := NUL]"
    using extraction_writes_only_terminators
            [of "Some 0" "typed ''pr 7''" 0 "''pr''" "[Some 0, None]"] tok nt len sp
    by (simp add: numeral_2_eq_2)
  moreover have "line_buf (extractions [Some 0, None] (typed ''pr 7'')) ! 2 = NUL"
    using extraction_writes_only_terminators
            [of "Some 0" "typed ''pr 7''" 0 "''pr''" "[Some 0, None]"] len changed
    by blast
  ultimately show ?thesis using sp by simp
qed

text \<open>
  Claim C2 as stated fails: parsing the line \<open>pr 7\<close> changes the line buffer (the space
  after \<open>pr\<close> becomes a null).
\<close>

theorem extraction_changes_line_buf:
  "line_buf (parse_cmd (typed ''pr 7'')) \<noteq> line_buf (typed ''pr 7'')"
  by code_simp

text \<open>
  Claim C5. Two extraction calls with \<^verbatim>\<open>line_buf\<close> as input, one after the other
  (\<^verbatim>\<open>parse_cmd\<close> twice): the second call finds the candidate token the first one found,
  leaves the whole token buffer as the first call left it, leaves the error flag as the
  first call left it, and prints what the first call printed (the notice, or nothing).
\<close>

theorem reset_scan_idempotent:
  "args (parse_cmd (parse_cmd st)) = args (parse_cmd st) \<and>
   next_token (Some 0) (parse_cmd st) = next_token (Some 0) st \<and>
   error_flag (parse_cmd (parse_cmd st)) = error_flag (parse_cmd st) \<and>
   serial_out (parse_cmd (parse_cmd st)) =
     serial_out (parse_cmd st) @ drop (length (serial_out st)) (serial_out (parse_cmd st))"
proof -
  define st1 where "st1 = get_token (Some 0) st"
  have nt: "next_token (Some 0) st1 = next_token (Some 0) st"
    unfolding st1_def by (rule next_token_after_get_token)
  have tl: "too_long (Some 0) st1 = too_long (Some 0) st"
    unfolding st1_def by (rule too_long_after_get_token)
  have a1: "args st1 =
     (case next_token (Some 0) st of
        None \<Rightarrow> (args st)[0 := NUL]
      | Some t \<Rightarrow> if length t < ARG_BUF_SIZE
                  then t @ [NUL] @ drop (Suc (length t)) (args st)
                  else (args st)[0 := NUL])"
    unfolding st1_def by (simp add: get_token_eq split: option.splits)
  have a2: "args (get_token (Some 0) st1) =
     (case next_token (Some 0) st of
        None \<Rightarrow> (args st1)[0 := NUL]
      | Some t \<Rightarrow> if length t < ARG_BUF_SIZE
                  then t @ [NUL] @ drop (Suc (length t)) (args st1)
                  else (args st1)[0 := NUL])"
    by (simp add: get_token_eq nt split: option.splits)
  have A: "args (get_token (Some 0) st1) = args st1"
  proof (cases "next_token (Some 0) st")
    case None
    then show ?thesis by (simp add: a1 a2)
  next
    case (Some t)
    show ?thesis
    proof (cases "length t < ARG_BUF_SIZE")
      case True
      have "args st1 = t @ [NUL] @ drop (Suc (length t)) (args st)"
        using Some True by (simp add: a1)
      moreover have "args (get_token (Some 0) st1) = t @ [NUL] @ drop (Suc (length t)) (args st1)"
        using Some True by (simp add: a2)
      ultimately show ?thesis by simp
    next
      case False
      with Some show ?thesis by (simp add: a1 a2)
    qed
  qed
  have "error_flag (get_token (Some 0) st1) = (error_flag st1 \<or> too_long (Some 0) st1)"
    by (rule get_token_error_flag)
  moreover have "error_flag st1 = (error_flag st \<or> too_long (Some 0) st)"
    unfolding st1_def by (rule get_token_error_flag)
  ultimately have E: "error_flag (get_token (Some 0) st1) = error_flag st1"
    using tl by auto
  have O: "serial_out (get_token (Some 0) st1) =
     serial_out st1 @ drop (length (serial_out st)) (serial_out st1)"
    by (simp add: get_token_serial_out tl) (simp add: st1_def get_token_serial_out)
  show ?thesis
    using A E O nt by (simp add: parse_cmd_def st1_def)
qed

theorem reset_scan_idempotent_witness:
  "cstr (args (parse_cmd (parse_cmd (typed ''pw 13 1'')))) 0 = ''pw''"
proof -
  have "cstr (args (parse_cmd (typed ''pw 13 1''))) 0 = ''pw''"
    by code_simp
  then show ?thesis
    using reset_scan_idempotent [of "typed ''pw 13 1''"] by simp
qed

text \<open>
  Claim C7. When the candidate token of an extraction call has \<open>ARG_BUF_SIZE\<close> bytes or
  more, \<^verbatim>\<open>get_token\<close> prints the line \<open>Token too long.\<close>, sets the error flag and
  leaves the token buffer empty (first byte null), and no hardware is touched. When
  that happens to the first token of a complete line, \<^verbatim>\<open>PinCLI\<close> does not call
  \<^verbatim>\<open>execute\<close>: the state after the cycle is the state at the end of the line with
  both buffers cleared, the notice and the prompt printed, and the flag cleared again.
\<close>

theorem too_long_token_aborts:
  "(too_long instr st \<longrightarrow>
      error_flag (get_token instr st) \<and>
      cstr (args (get_token instr st)) 0 = [] \<and>
      (args st \<noteq> [] \<longrightarrow> args (get_token instr st) ! 0 = NUL) \<and>
      serial_out (get_token instr st) =
        serial_out st @ ''Token too long.'' @ [CR_CHAR, LF_CHAR] \<and>
      hw_log (get_token instr st) = hw_log st) \<and>
   (read_input inp st = (1, rest, st1) \<and> too_long (Some 0) st1 \<longrightarrow>
      PinCLI inp st =
        (rest,
         st1\<lparr>error_flag := False,
             line_buf := replicate LINE_BUF_SIZE NUL,
             args := replicate ARG_BUF_SIZE NUL,
             cp := 0,
             strtok_last := strtok_last (parse_cmd st1),
             serial_out :=
               serial_out st1 @ ''Token too long.'' @ [CR_CHAR, LF_CHAR] @ CLI_PROMPT\<rparr>))"
proof (intro conjI impI)
  assume tl: "too_long instr st"
  show "error_flag (get_token instr st)"
    using tl by (simp add: get_token_error_flag)
  show "cstr (args (get_token instr st)) 0 = []"
    using tl by (auto simp: get_token_cstr_args too_long_def split: option.splits)
  show "serial_out (get_token instr st) = serial_out st @ ''Token too long.'' @ [CR_CHAR, LF_CHAR]"
    using tl by (simp add: get_token_serial_out)
  show "hw_log (get_token instr st) = hw_log st"
    by simp
  assume "args st \<noteq> []"
  then show "args (get_token instr st) ! 0 = NUL"
    by (subst get_token_too_long [OF tl]) (cases "args st"; simp)
next
  assume a: "read_input inp st = (1, rest, st1) \<and> too_long (Some 0) st1"
  then have r: "read_input inp st = (1, rest, st1)" and tl: "too_long (Some 0) st1"
    by simp_all
  have e: "error_flag (parse_cmd st1)"
    using tl by (simp add: parse_cmd_def get_token_error_flag)
  show "PinCLI inp st =
        (rest,
         st1\<lparr>error_flag := False,
             line_buf := replicate LINE_BUF_SIZE NUL,
             args := replicate ARG_BUF_SIZE NUL,
             cp := 0,
             strtok_last := strtok_last (parse_cmd st1),
             serial_out :=
               serial_out st1 @ ''Token too long.'' @ [CR_CHAR, LF_CHAR] @ CLI_PROMPT\<rparr>)"
    unfolding PinCLI_def r
    using e
    by (simp add: Let_def send_prompt_def Serial_print_def Serial_write_def)
       (simp add: parse_cmd_def get_token_too_long [OF tl])
qed

theorem too_long_token_aborts_witness:
  "error_flag (get_token (Some 0) (typed ''aaaaaaaaaaaaaaaaaaaa'')) \<and>
   PinCLI (''aaaaaaaaaaaaaaaaaaaa'' @ [CR_CHAR]) boot =
     ([],
      (typed ''aaaaaaaaaaaaaaaaaaaa'')
        \<lparr>error_flag := False,
         line_buf := replicate LINE_BUF_SIZE NUL,
         args := replicate ARG_BUF_SIZE NUL,
         cp := 0,
         strtok_last := strtok_last (parse_cmd (typed ''aaaaaaaaaaaaaaaaaaaa'')),
         serial_out :=
           serial_out (typed ''aaaaaaaaaaaaaaaaaaaa'') @
           ''Token too long.'' @ [CR_CHAR, LF_CHAR] @ CLI_PROMPT\<rparr>)"
proof -
  have tl: "too_long (Some 0) (typed ''aaaaaaaaaaaaaaaaaaaa'')"
    by code_simp
  have "fst (read_input (''aaaaaaaaaaaaaaaaaaaa'' @ [CR_CHAR]) boot) = 1"
       "fst (snd (read_input (''aaaaaaaaaaaaaaaaaaaa'' @ [CR_CHAR]) boot)) = []"
    by code_simp+
  then have r: "read_input (''aaaaaaaaaaaaaaaaaaaa'' @ [CR_CHAR]) boot =
                  (1, [], typed ''aaaaaaaaaaaaaaaaaaaa'')"
    by (simp add: typed_def prod_eq_iff)
  show ?thesis
    using too_long_token_aborts [of "Some 0" "typed ''aaaaaaaaaaaaaaaaaaaa''"]
          too_long_token_aborts
            [of "Some 0" boot "''aaaaaaaaaaaaaaaaaaaa'' @ [CR_CHAR]" "[]"
                "typed ''aaaaaaaaaaaaaaaaaaaa''"]
          tl r
    by blast
qed

section \<open>Dispatch\<close>

text \<open>The two parallel arrays pair each name with the handler of that command.\<close>

lemma command_table:
  "zip commands_str commands_func =
     [(''delay'', cmd_delay), (''help'', cmd_help), (''pmode'', cmd_pmode), (''pr'', cmd_pr),
      (''pw'', cmd_pw), (''spiend'', cmd_spiend), (''spirw'', cmd_spirw),
      (''spirw16'', cmd_spirw16), (''spistart'', cmd_spistart)]"
  by (simp add: commands_str_def commands_func_def)

text \<open>
  Claim C8. \<^verbatim>\<open>execute\<close> on the first token in \<^verbatim>\<open>args\<close>: an empty token prints
  \<open>(Empty Command)\<close> and returns 0; a token equal to the name at index \<open>i\<close> of the table
  runs the handler at index \<open>i\<close> and returns what it returns; any other token prints the
  invalid-command notice, which points to \<open>help\<close>, and returns 0. The comparison is
  \<^verbatim>\<open>strcmp\<close>, so it is exact and case-sensitive; by \<open>command_table\<close> the handler at
  index \<open>i\<close> is the one of the command named there.
\<close>

theorem execute_dispatch:
  "(args st ! 0 = NUL \<longrightarrow> execute st = (Some 0, Serial_println ''(Empty Command)'' st)) \<and>
   (args st ! 0 \<noteq> NUL \<longrightarrow>
      (\<forall>i < num_commands. args_is st (commands_str ! i) \<longrightarrow> execute st = (commands_func ! i) st) \<and>
      (cstr (args st) 0 \<notin> set commands_str \<longrightarrow>
         execute st =
           (Some 0, Serial_println ''Invalid command. Type \"help\" for more.'' st)))"
proof (intro conjI impI allI)
  assume "args st ! 0 = NUL"
  then show "execute st = (Some 0, Serial_println ''(Empty Command)'' st)"
    by (simp add: execute_def)
next
  fix i
  assume ne: "args st ! 0 \<noteq> NUL" and i: "i < num_commands" and m: "args_is st (commands_str ! i)"
  have "\<forall>j. 0 \<le> j \<and> j < i \<longrightarrow> \<not> args_is st (commands_str ! j)"
  proof (intro allI impI)
    fix j assume j: "0 \<le> j \<and> j < i"
    with i have "commands_str ! j \<noteq> commands_str ! i"
      using commands_str_distinct by (simp add: nth_eq_iff_index_eq num_commands_def)
    with m show "\<not> args_is st (commands_str ! j)" by (simp add: args_is_def)
  qed
  then have "execute_from 0 st = execute_from i st"
    using i by (intro execute_from_skip) auto
  also have "\<dots> = (commands_func ! i) st"
    using i m by (subst execute_from.simps) simp
  finally show "execute st = (commands_func ! i) st"
    using ne by (simp add: execute_def)
next
  assume ne: "args st ! 0 \<noteq> NUL" and nm: "cstr (args st) 0 \<notin> set commands_str"
  have "\<forall>j. 0 \<le> j \<and> j < num_commands \<longrightarrow> \<not> args_is st (commands_str ! j)"
    using nm by (auto simp: args_is_def num_commands_def)
  then have "execute_from 0 st = execute_from num_commands st"
    by (intro execute_from_skip) auto
  also have "\<dots> = (Some 0, Serial_println ''Invalid command. Type \"help\" for more.'' st)"
    by (subst execute_from.simps) simp
  finally show "execute st = (Some 0, Serial_println ''Invalid command. Type \"help\" for more.'' st)"
    using ne by (simp add: execute_def)
qed

theorem execute_dispatch_witness:
  "execute (parse_cmd (typed [])) =
     (Some 0, Serial_println ''(Empty Command)'' (parse_cmd (typed []))) \<and>
   execute (parse_cmd (typed ''spiend'')) = (commands_func ! 5) (parse_cmd (typed ''spiend'')) \<and>
   execute (parse_cmd (typed ''foo'')) =
     (Some 0, Serial_println ''Invalid command. Type \"help\" for more.'' (parse_cmd (typed ''foo'')))"
proof -
  have e: "args (parse_cmd (typed [])) ! 0 = NUL"
    by code_simp
  have m: "args (parse_cmd (typed ''spiend'')) ! 0 \<noteq> NUL" "5 < num_commands"
          "args_is (parse_cmd (typed ''spiend'')) (commands_str ! 5)"
    by code_simp+
  have n: "args (parse_cmd (typed ''foo'')) ! 0 \<noteq> NUL"
          "cstr (args (parse_cmd (typed ''foo''))) 0 \<notin> set commands_str"
    by code_simp+
  show ?thesis
    using execute_dispatch [of "parse_cmd (typed [])"] e
          execute_dispatch [of "parse_cmd (typed ''spiend'')"] m
          execute_dispatch [of "parse_cmd (typed ''foo'')"] n
    by blast
qed

section \<open>Complete lines\<close>

lemma ctrl_chars_distinct [simp]:
  "CR_CHAR \<noteq> LF_CHAR" "LF_CHAR \<noteq> CR_CHAR" "BKSP_CHAR \<noteq> LF_CHAR" "LF_CHAR \<noteq> BKSP_CHAR"
  "BKSP_CHAR \<noteq> CR_CHAR" "CR_CHAR \<noteq> BKSP_CHAR"
  by (simp_all add: CR_CHAR_def LF_CHAR_def BKSP_CHAR_def)

lemma read_input_append:
  "CR_CHAR \<notin> set bs \<Longrightarrow>
   read_input bs st = (0, [], snd (snd (read_input bs st))) \<and>
   read_input (bs @ later) st = read_input later (snd (snd (read_input bs st)))"
proof (induction bs arbitrary: st)
  case Nil
  then show ?case by simp
next
  case (Cons c bs)
  then have c: "c \<noteq> CR_CHAR" and bs: "CR_CHAR \<notin> set bs" by auto
  show ?case
    using c Cons.IH [OF bs] by (simp add: Let_def)
qed

lemma buf_backspace:
  assumes "content \<noteq> []" and "length content < LINE_BUF_SIZE"
  shows "(content @ replicate (LINE_BUF_SIZE - length content) NUL)[length content - 1 := NUL] =
         butlast content @ replicate (LINE_BUF_SIZE - length (butlast content)) NUL"
proof -
  from assms(1) obtain xs x where c: "content = xs @ [x]" by (cases content rule: rev_cases) auto
  have "LINE_BUF_SIZE - length xs = Suc (LINE_BUF_SIZE - length content)"
    using assms(2) c by simp
  then show ?thesis
    by (simp add: c list_update_append)
qed

lemma buf_store:
  assumes "length content < LINE_BUF_SIZE - 1"
  shows "(content @ replicate (LINE_BUF_SIZE - length content) NUL)[length content := x] =
         (content @ [x]) @ replicate (LINE_BUF_SIZE - length (content @ [x])) NUL"
proof -
  have "LINE_BUF_SIZE - length content = Suc (LINE_BUF_SIZE - length (content @ [x]))"
    using assms by simp
  then show ?thesis
    by (simp add: list_update_append)
qed

lemma read_input_edit:
  assumes "line_buf st = content @ replicate (LINE_BUF_SIZE - length content) NUL"
    and "cp st = length content"
    and "CR_CHAR \<notin> set bs"
    and "\<forall>n \<le> length bs. length (foldl edit_byte content (take n bs)) \<le> LINE_BUF_SIZE - 1"
  shows "\<exists>st'. read_input (bs @ CR_CHAR # rest) st = (1, rest, st') \<and>
           line_buf st' = foldl edit_byte content bs @
             replicate (LINE_BUF_SIZE - length (foldl edit_byte content bs)) NUL \<and>
           cp st' = length (foldl edit_byte content bs)"
  using assms
proof (induction bs arbitrary: st content)
  case Nil
  then show ?case by simp
next
  case (Cons c bs)
  from Cons.prems(3) have c: "c \<noteq> CR_CHAR" and bs: "CR_CHAR \<notin> set bs" by auto
  from Cons.prems(4) have l0: "length content \<le> LINE_BUF_SIZE - 1"
    by (metis foldl_Nil le0 take_0)
  have l1: "length (edit_byte content c) \<le> LINE_BUF_SIZE - 1"
    using Cons.prems(4) [rule_format, of 1] by simp
  have rest': "\<forall>n \<le> length bs.
      length (foldl edit_byte (edit_byte content c) (take n bs)) \<le> LINE_BUF_SIZE - 1"
  proof (intro allI impI)
    fix n assume "n \<le> length bs"
    then show "length (foldl edit_byte (edit_byte content c) (take n bs)) \<le> LINE_BUF_SIZE - 1"
      using Cons.prems(4) [rule_format, of "Suc n"] by simp
  qed
  have sz: "0 < LINE_BUF_SIZE" by (simp add: LINE_BUF_SIZE_def)
  consider (lf) "c = LF_CHAR"
    | (bs0) "c = BKSP_CHAR" "content = []"
    | (bs1) "c = BKSP_CHAR" "content \<noteq> []"
    | (ch) "c \<noteq> LF_CHAR" "c \<noteq> BKSP_CHAR"
    by blast
  then show ?case
  proof cases
    case lf
    then have e: "edit_byte content c = content" by (simp add: edit_byte_def)
    have step: "read_input (c # bs @ CR_CHAR # rest) st = read_input (bs @ CR_CHAR # rest) st"
      using lf by simp
    from Cons.IH [OF Cons.prems(1) Cons.prems(2) bs rest' [unfolded e]]
    show ?thesis
      by (simp only: append_Cons step foldl_Cons e)
  next
    case bs0
    then have e: "edit_byte content c = content" by (simp add: edit_byte_def)
    have step: "read_input (c # bs @ CR_CHAR # rest) st = read_input (bs @ CR_CHAR # rest) st"
      using bs0 Cons.prems(2) by simp
    from Cons.IH [OF Cons.prems(1) Cons.prems(2) bs rest' [unfolded e]]
    show ?thesis
      by (simp only: append_Cons step foldl_Cons e)
  next
    case bs1
    then have e: "edit_byte content c = butlast content" by (simp add: edit_byte_def)
    define st2 where "st2 = Serial_write [BKSP_CHAR, SPACE, BKSP_CHAR]
        (st\<lparr>cp := cp st - 1, line_buf := (line_buf st)[cp st - 1 := NUL]\<rparr>)"
    have b: "line_buf st2 = butlast content @ replicate (LINE_BUF_SIZE - length (butlast content)) NUL"
      using buf_backspace [OF bs1(2)] l0 sz
      by (simp add: st2_def Cons.prems(1) Cons.prems(2))
    have p: "cp st2 = length (butlast content)"
      by (simp add: st2_def Cons.prems(2))
    have step: "read_input (c # bs @ CR_CHAR # rest) st = read_input (bs @ CR_CHAR # rest) st2"
      using bs1 Cons.prems(2) by (simp add: st2_def)
    from Cons.IH [OF b p bs rest' [unfolded e]]
    show ?thesis
      by (simp only: append_Cons step foldl_Cons e)
  next
    case ch
    then have e: "edit_byte content c = content @ [tolower c]" by (simp add: edit_byte_def)
    have lt: "length content < LINE_BUF_SIZE - 1"
      using l1 by (simp add: e)
    define st2 where "st2 = Serial_write [tolower c]
        (st\<lparr>line_buf := (line_buf st)[cp st := tolower c], cp := cp st + 1\<rparr>)"
    have b: "line_buf st2 = (content @ [tolower c]) @
               replicate (LINE_BUF_SIZE - length (content @ [tolower c])) NUL"
      using buf_store [OF lt] by (simp add: st2_def Cons.prems(1) Cons.prems(2))
    have p: "cp st2 = length (content @ [tolower c])"
      by (simp add: st2_def Cons.prems(2))
    have step: "read_input (c # bs @ CR_CHAR # rest) st = read_input (bs @ CR_CHAR # rest) st2"
      using ch c lt Cons.prems(2) by (simp add: st2_def Let_def)
    from Cons.IH [OF b p bs rest' [unfolded e]]
    show ?thesis
      by (simp only: append_Cons step foldl_Cons e)
  qed
qed


lemma length_edit_byte: "length (edit_byte acc c) \<le> Suc (length acc)"
  by (auto simp add: edit_byte_def)

lemma length_foldl_edit: "length (foldl edit_byte acc bs) \<le> length acc + length bs"
proof (induction bs arbitrary: acc)
  case Nil
  then show ?case by simp
next
  case (Cons c bs)
  have "length (foldl edit_byte (edit_byte acc c) bs) \<le> length (edit_byte acc c) + length bs"
    by (rule Cons.IH)
  also have "\<dots> \<le> Suc (length acc) + length bs"
    using length_edit_byte [of acc c] by simp
  finally show ?case by simp
qed

lemma no_overflow_short: "length bs \<le> LINE_BUF_SIZE - 1 \<Longrightarrow> no_overflow bs"
  unfolding no_overflow_def edited_def
proof (intro allI impI)
  fix n assume a: "length bs \<le> LINE_BUF_SIZE - 1" "n \<le> length bs"
  have "length (foldl edit_byte [] (take n bs)) \<le> length (take n bs)"
    using length_foldl_edit [of "[]" "take n bs"] by simp
  with a show "length (foldl edit_byte [] (take n bs)) \<le> LINE_BUF_SIZE - 1" by simp
qed


text \<open>
  Claim C3. From a state that is ready for a new line, for input bytes \<open>bs\<close> without a
  carriage return that never fill the buffer, followed by a carriage return:
  \<^verbatim>\<open>read_input\<close> returns 1 and leaves what follows the carriage return unread; the
  first \<open>cp\<close> bytes of the line buffer are the lowercased, backspace-resolved content of
  \<open>bs\<close> (all of it: it fits in \<open>LINE_BUF_SIZE - 1\<close> bytes), the rest of the buffer is
  null, and so is the byte at \<open>cp\<close>. By \<open>read_input_append\<close> it makes no difference
  in how many pieces the bytes arrive.
\<close>

theorem complete_line_content:
  assumes "fresh_line st" and "CR_CHAR \<notin> set bs" and "no_overflow bs"
  shows "case read_input (bs @ CR_CHAR # rest) st of
           (ret, unread, st') \<Rightarrow>
             ret = 1 \<and> unread = rest \<and>
             cp st' = length (edited bs) \<and>
             take (cp st') (line_buf st') = take (LINE_BUF_SIZE - 1) (edited bs) \<and>
             line_buf st' = edited bs @ replicate (LINE_BUF_SIZE - length (edited bs)) NUL \<and>
             line_buf st' ! cp st' = NUL"
proof -
  have a: "line_buf st = [] @ replicate (LINE_BUF_SIZE - length ([] :: char list)) NUL"
    and b: "cp st = length ([] :: char list)"
    using assms(1) by (simp_all add: fresh_line_def)
  have c: "\<forall>n \<le> length bs. length (foldl edit_byte [] (take n bs)) \<le> LINE_BUF_SIZE - 1"
    using assms(3) by (simp add: no_overflow_def edited_def)
  from read_input_edit [OF a b assms(2) c, of rest]
  obtain st' where r: "read_input (bs @ CR_CHAR # rest) st = (1, rest, st')"
    and lb: "line_buf st' = edited bs @ replicate (LINE_BUF_SIZE - length (edited bs)) NUL"
    and p: "cp st' = length (edited bs)"
    by (auto simp: edited_def)
  have le: "length (edited bs) \<le> LINE_BUF_SIZE - 1"
    using assms(3) [unfolded no_overflow_def, rule_format, of "length bs"] by simp
  then have lt: "length (edited bs) < LINE_BUF_SIZE"
    by (simp add: LINE_BUF_SIZE_def)
  have "line_buf st' ! cp st' = NUL"
    using lt by (simp add: lb p nth_append)
  then show ?thesis
    using le by (simp add: r lb p)
qed

theorem complete_line_content_witness:
  "line_buf (typed (''PR 8'' @ [BKSP_CHAR] @ ''7'')) =
     edited (''PR 8'' @ [BKSP_CHAR] @ ''7'') @
     replicate (LINE_BUF_SIZE - length (edited (''PR 8'' @ [BKSP_CHAR] @ ''7''))) NUL \<and>
   edited (''PR 8'' @ [BKSP_CHAR] @ ''7'') = ''pr 7''"
proof -
  define bs where "bs = ''PR 8'' @ [BKSP_CHAR] @ ''7''"
  have f: "fresh_line boot"
    by code_simp
  have c: "CR_CHAR \<notin> set bs"
    by (simp add: bs_def CR_CHAR_def BKSP_CHAR_def)
  have n: "no_overflow bs"
    by (rule no_overflow_short) (simp add: bs_def LINE_BUF_SIZE_def)
  have e: "edited bs = ''pr 7''"
    unfolding bs_def by code_simp
  obtain ret unread st' where r: "read_input (bs @ [CR_CHAR]) boot = (ret, unread, st')"
    by (rule prod_cases3)
  have t: "typed bs = st'"
    by (simp only: typed_def r snd_conv)
  have "line_buf st' = edited bs @ replicate (LINE_BUF_SIZE - length (edited bs)) NUL"
    using complete_line_content [OF f c n, of "[]"] by (simp add: r)
  then show ?thesis
    using e unfolding t [symmetric] bs_def by simp
qed

text \<open>The invariants that keep every C string of the model inside its buffer.\<close>

lemma line_inv_step_backspace:
  assumes "line_inv st" and "0 < cp st"
  shows "line_inv (st\<lparr>cp := cp st - 1, line_buf := (line_buf st)[cp st - 1 := NUL]\<rparr>)"
proof -
  from assms have len: "length (line_buf st) = LINE_BUF_SIZE" and lt: "cp st < LINE_BUF_SIZE"
    and z: "drop (cp st) (line_buf st) = replicate (LINE_BUF_SIZE - cp st) NUL"
    by (simp_all add: line_inv_def)
  have i: "cp st - 1 < length (line_buf st)" using lt len by simp
  have "drop (cp st - 1) ((line_buf st)[cp st - 1 := NUL]) =
          NUL # drop (Suc (cp st - 1)) ((line_buf st)[cp st - 1 := NUL])"
    using i by (simp add: Cons_nth_drop_Suc [symmetric])
  also have "\<dots> = NUL # replicate (LINE_BUF_SIZE - cp st) NUL"
    using assms(2) z by simp
  also have "\<dots> = replicate (LINE_BUF_SIZE - (cp st - 1)) NUL"
    using lt assms(2) by (simp add: Suc_diff_le replicate_Suc [symmetric] del: replicate_Suc)
  finally show ?thesis
    using len lt by (simp add: line_inv_def)
qed

lemma line_inv_step_store:
  assumes "line_inv st" and "cp st < LINE_BUF_SIZE - 1"
  shows "line_inv (st\<lparr>line_buf := (line_buf st)[cp st := c], cp := cp st + 1\<rparr>)"
proof -
  from assms have len: "length (line_buf st) = LINE_BUF_SIZE"
    and z: "drop (cp st) (line_buf st) = replicate (LINE_BUF_SIZE - cp st) NUL"
    by (simp_all add: line_inv_def)
  have "drop (Suc (cp st)) (line_buf st) = drop 1 (drop (cp st) (line_buf st))"
    by simp
  also have "\<dots> = replicate (LINE_BUF_SIZE - Suc (cp st)) NUL"
    unfolding z by simp
  finally show ?thesis
    using len assms(2) by (simp add: line_inv_def)
qed

lemma line_inv_restart:
  "line_inv (st\<lparr>line_buf := (replicate LINE_BUF_SIZE NUL)[0 := c], cp := 1\<rparr>)"
  by (simp add: line_inv_def LINE_BUF_SIZE_def)

lemma line_inv_Serial_write [simp]: "line_inv (Serial_write s st) = line_inv st"
  by (simp add: line_inv_def)

lemma read_input_inv: "line_inv st \<Longrightarrow> line_inv (snd (snd (read_input bs st)))"
proof (induction bs arbitrary: st)
  case Nil
  then show ?case by simp
next
  case (Cons c bs)
  note inv = Cons.prems
  have IH: "line_inv s \<Longrightarrow> line_inv (snd (snd (read_input bs s)))" for s
    by (rule Cons.IH)
  consider (lf) "c = LF_CHAR"
    | (cr) "c \<noteq> LF_CHAR" "c = CR_CHAR"
    | (bs0) "c \<noteq> LF_CHAR" "c \<noteq> CR_CHAR" "c = BKSP_CHAR" "cp st = 0"
    | (bs1) "c \<noteq> LF_CHAR" "c \<noteq> CR_CHAR" "c = BKSP_CHAR" "0 < cp st"
    | (store) "c \<noteq> LF_CHAR" "c \<noteq> CR_CHAR" "c \<noteq> BKSP_CHAR" "cp st < LINE_BUF_SIZE - 1"
    | (over) "c \<noteq> LF_CHAR" "c \<noteq> CR_CHAR" "c \<noteq> BKSP_CHAR" "\<not> cp st < LINE_BUF_SIZE - 1"
    by fastforce
  then show ?case
  proof cases
    case lf
    then show ?thesis using IH [OF inv] by simp
  next
    case cr
    then show ?thesis using inv by simp
  next
    case bs0
    then show ?thesis using IH [OF inv] by simp
  next
    case bs1
    have "line_inv (Serial_write [BKSP_CHAR, SPACE, BKSP_CHAR]
            (st\<lparr>cp := cp st - 1, line_buf := (line_buf st)[cp st - 1 := NUL]\<rparr>))"
      using line_inv_step_backspace [OF inv bs1(4)] by simp
    from IH [OF this] show ?thesis using bs1 by simp
  next
    case store
    have "line_inv (Serial_write [tolower c]
            (st\<lparr>line_buf := (line_buf st)[cp st := tolower c], cp := cp st + 1\<rparr>))"
      using line_inv_step_store [OF inv store(4)] by simp
    from IH [OF this] show ?thesis using store by (simp add: Let_def)
  next
    case over
    have "line_inv (Serial_write [tolower c]
            ((send_prompt
               (Serial_write [BEL, CR_CHAR, LF_CHAR]
                 (st\<lparr>cp := 0, line_buf := replicate LINE_BUF_SIZE NUL\<rparr>)))
             \<lparr>line_buf := (replicate LINE_BUF_SIZE NUL)[0 := tolower c], cp := 1\<rparr>))"
      using line_inv_restart by simp
    from IH [OF this] show ?thesis using over by (simp add: Let_def)
  qed
qed

lemma get_token_line_inv: "line_inv st \<Longrightarrow> line_inv (get_token i st)"
proof -
  assume inv: "line_inv st"
  then have len: "length (line_buf st) = LINE_BUF_SIZE" and lt: "cp st < LINE_BUF_SIZE"
    and z: "drop (cp st) (line_buf st) = replicate (LINE_BUF_SIZE - cp st) NUL"
    by (simp_all add: line_inv_def)
  from strtok_line_buf [of i st]
  consider "line_buf (snd (strtok i st)) = line_buf st"
    | e where "e < length (line_buf st)" "line_buf st ! e = SPACE"
        "line_buf (snd (strtok i st)) = (line_buf st)[e := NUL]"
    by blast
  then show ?thesis
  proof cases
    case 1
    then show ?thesis using inv by (simp add: line_inv_def)
  next
    case 2
    have "e < cp st"
    proof (rule ccontr)
      assume "\<not> e < cp st"
      then have "line_buf st ! e = drop (cp st) (line_buf st) ! (e - cp st)"
        using 2(1) by simp
      also have "\<dots> = NUL"
        unfolding z using 2(1) len \<open>\<not> e < cp st\<close> by simp
      finally show False using 2(2) by simp
    qed
    then have "drop (cp st) ((line_buf st)[e := NUL]) = drop (cp st) (line_buf st)"
      by simp
    then show ?thesis using inv 2(3) by (simp add: line_inv_def)
  qed
qed

lemma get_token_args_inv:
  "length (args st) = ARG_BUF_SIZE \<Longrightarrow>
   length (args (get_token i st)) = ARG_BUF_SIZE \<and> NUL \<in> set (args (get_token i st))"
  by (auto simp: get_token_eq ARG_BUF_SIZE_def set_update_memI split: option.splits)

section \<open>Tokens in order\<close>

lemma split_acc_word: "SPACE \<notin> set t \<Longrightarrow> split_acc acc (t @ r) = split_acc (acc @ t) r"
  by (induction t arbitrary: acc) auto

lemma split_acc_skip: "split_acc [] (dropWhile (\<lambda>c. c = SPACE) l) = split_acc [] l"
  by (induction l) auto

lemma split_tokens_unfold:
  "split_tokens l =
     (let l1 = dropWhile (\<lambda>c. c = SPACE) l
      in if l1 = [] then []
         else takeWhile (\<lambda>c. c \<noteq> SPACE) l1 #
              split_tokens (tl (dropWhile (\<lambda>c. c \<noteq> SPACE) l1)))"
proof -
  define l1 where "l1 = dropWhile (\<lambda>c. c = SPACE) l"
  define t where "t = takeWhile (\<lambda>c. c \<noteq> SPACE) l1"
  define r where "r = dropWhile (\<lambda>c. c \<noteq> SPACE) l1"
  have s: "split_tokens l = split_acc [] l1"
    by (simp add: split_tokens_def l1_def split_acc_skip)
  show ?thesis
  proof (cases "l1 = []")
    case True
    then show ?thesis by (simp add: s l1_def [symmetric] Let_def)
  next
    case False
    then have "hd l1 \<noteq> SPACE"
      using hd_dropWhile [of "\<lambda>c. c = SPACE" l] by (simp add: l1_def)
    with False have tne: "t \<noteq> []" by (cases l1) (auto simp: t_def)
    have "l1 = t @ r" by (simp add: t_def r_def)
    moreover have "SPACE \<notin> set t" by (auto simp: t_def dest: set_takeWhileD)
    ultimately have "split_acc [] l1 = split_acc t r"
      using split_acc_word [of t "[]" r] by simp
    also have "\<dots> = t # split_tokens (tl r)"
    proof (cases r)
      case Nil
      then show ?thesis using tne by (simp add: split_tokens_def)
    next
      case (Cons x r')
      then have "x = SPACE"
        using hd_dropWhile [of "\<lambda>c. c \<noteq> SPACE" l1] by (simp add: r_def)
      with Cons tne show ?thesis by (simp add: split_tokens_def)
    qed
    finally show ?thesis
      using False by (simp add: s l1_def [symmetric] Let_def t_def r_def)
  qed
qed

lemma split_tokens_Nil [simp]: "split_tokens [] = []"
  by (simp add: split_tokens_def)

lemma next_token_pending:
  "next_token instr st = (case pending_tokens instr st of [] \<Rightarrow> None | t # _ \<Rightarrow> Some t)"
proof -
  have S: "next_token (Some s) st =
      (case split_tokens (cstr (line_buf st) s) of [] \<Rightarrow> None | t # _ \<Rightarrow> Some t)" for s
    by (subst split_tokens_unfold) (simp add: next_token_Some Let_def)
  show ?thesis
  proof (cases instr)
    case (Some s)
    then show ?thesis using S by (simp add: pending_tokens_def)
  next
    case None
    show ?thesis
    proof (cases "strtok_last st")
      case None
      with \<open>instr = None\<close> show ?thesis
        by (simp add: pending_tokens_def next_token_def strtok_None)
    next
      case (Some s)
      with \<open>instr = None\<close> S [of s] show ?thesis
        by (simp add: pending_tokens_def next_token_def strtok_None)
    qed
  qed
qed

lemma pending_after_strtok_Some:
  "pending_tokens None (snd (strtok (Some s) st)) = tl (split_tokens (cstr (line_buf st) s))"
proof -
  define l where "l = cstr (line_buf st) s"
  define k where "k = length (takeWhile (\<lambda>c. c = SPACE) l)"
  define l1 where "l1 = dropWhile (\<lambda>c. c = SPACE) l"
  define t where "t = takeWhile (\<lambda>c. c \<noteq> SPACE) l1"
  define e where "e = s + k + length t"
  note S = strtok_Some [OF l_def k_def l1_def t_def]
  note O = cstr_offsets [OF l_def k_def l1_def t_def]
  have U: "split_tokens l =
     (if l1 = [] then [] else t # split_tokens (tl (dropWhile (\<lambda>c. c \<noteq> SPACE) l1)))"
    by (subst split_tokens_unfold) (simp add: Let_def l1_def t_def)
  consider (none) "l1 = []"
    | (last) "l1 \<noteq> []" "dropWhile (\<lambda>c. c \<noteq> SPACE) l1 = []"
    | (more) "l1 \<noteq> []" "dropWhile (\<lambda>c. c \<noteq> SPACE) l1 \<noteq> []"
    by blast
  then have "pending_tokens None (snd (strtok (Some s) st)) = tl (split_tokens l)"
  proof cases
    case none
    then show ?thesis by (simp add: S U pending_tokens_def)
  next
    case last
    have sl: "strtok_last (snd (strtok (Some s) st)) = None"
      using last by (auto simp add: S)
    have "split_tokens l = t # split_tokens (tl (dropWhile (\<lambda>c. c \<noteq> SPACE) l1))"
      using last(1) by (simp add: U)
    also have "\<dots> = [t]"
      by (simp only: last(2) list.sel split_tokens_Nil)
    finally show ?thesis by (simp add: pending_tokens_def sl)
  next
    case more
    have ne: "cstr (line_buf st) e \<noteq> []"
      using more by (simp add: O e_def)
    have "cstr ((line_buf st)[e := NUL]) (Suc e) = cstr (line_buf st) (e + 1)"
      by (simp add: cstr_update_before)
    also have "\<dots> = drop 1 (cstr (line_buf st) e)"
      using ne by (intro cstr_add) (cases "cstr (line_buf st) e"; simp)
    also have "\<dots> = tl (dropWhile (\<lambda>c. c \<noteq> SPACE) l1)"
      by (simp add: O e_def drop_Suc)
    finally show ?thesis
      using more by (auto simp add: S U pending_tokens_def e_def)
  qed
  then show ?thesis by (simp add: l_def)
qed

lemma pending_after_get_token:
  "pending_tokens None (get_token instr st) = tl (pending_tokens instr st)"
proof -
  have L: "pending_tokens None st' = pending_tokens None st''"
    if "line_buf st' = line_buf st''" "strtok_last st' = strtok_last st''" for st' st''
    using that by (auto simp add: pending_tokens_def split: option.splits)
  have G: "pending_tokens None (get_token i st) = pending_tokens None (snd (strtok i st))" for i
    by (rule L) simp_all
  show ?thesis
  proof (cases instr)
    case (Some s)
    have "pending_tokens (Some s) st = split_tokens (cstr (line_buf st) s)"
      by (simp add: pending_tokens_def)
    then show ?thesis
      unfolding Some G pending_after_strtok_Some by simp
  next
    case None
    show ?thesis
    proof (cases "strtok_last st")
      case None
      have "strtok None st = (None, st)" "pending_tokens None st = []"
        using None by (simp_all add: strtok_None pending_tokens_def)
      then show ?thesis
        unfolding \<open>instr = None\<close> G by simp
    next
      case (Some s)
      have "strtok None st = strtok (Some s) st"
           "pending_tokens None st = split_tokens (cstr (line_buf st) s)"
        using Some by (simp_all add: strtok_None pending_tokens_def)
      then show ?thesis
        unfolding \<open>instr = None\<close> G by (simp only: pending_after_strtok_Some)
    qed
  qed
qed

lemma get_tokens_pending:
  "pending_tokens instr st = ts \<Longrightarrow> \<forall>t \<in> set ts. length t < ARG_BUF_SIZE \<Longrightarrow>
   fst (get_tokens instr (Suc (length ts)) st) = ts @ [[]] \<and>
   error_flag (snd (get_tokens instr (Suc (length ts)) st)) = error_flag st \<and>
   serial_out (snd (get_tokens instr (Suc (length ts)) st)) = serial_out st"
proof (induction ts arbitrary: instr st)
  case Nil
  then have "next_token instr st = None" by (simp add: next_token_pending)
  then show ?case
    by (simp add: get_token_cstr_args get_token_error_flag get_token_serial_out too_long_def)
next
  case (Cons t ts)
  then have nt: "next_token instr st = Some t" and len: "length t < ARG_BUF_SIZE"
    by (simp_all add: next_token_pending)
  have p: "pending_tokens None (get_token instr st) = ts"
    using Cons.prems(1) by (simp add: pending_after_get_token)
  have rest: "\<forall>t \<in> set ts. length t < ARG_BUF_SIZE"
    using Cons.prems(2) by simp
  note IH = Cons.IH [OF p rest]
  have "get_tokens instr (Suc (Suc (length ts))) st =
          (cstr (args (get_token instr st)) 0 # fst (get_tokens None (Suc (length ts)) (get_token instr st)),
           snd (get_tokens None (Suc (length ts)) (get_token instr st)))"
    by (simp add: Let_def split: prod.splits)
  then show ?case
    using IH nt len
    by (simp add: get_token_cstr_args get_token_error_flag get_token_serial_out too_long_def)
qed


text \<open>
  Claim C6. Let the line, as a C string, hold the space-delimited tokens \<open>ts\<close>, each
  of at most \<open>ARG_BUF_SIZE - 1\<close> bytes. Then one extraction call on \<^verbatim>\<open>line_buf\<close>
  followed by calls on \<^verbatim>\<open>NULL\<close>, \<open>length ts + 1\<close> calls in all, yield the tokens of
  \<open>ts\<close> in their order and then the empty token; the error flag is never set and
  nothing is printed.
\<close>

theorem tokens_in_order:
  assumes "split_tokens (cstr (line_buf st) 0) = ts"
    and "\<forall>t \<in> set ts. length t \<le> ARG_BUF_SIZE - 1"
  shows "fst (get_tokens (Some 0) (Suc (length ts)) st) = ts @ [[]] \<and>
         error_flag (snd (get_tokens (Some 0) (Suc (length ts)) st)) = error_flag st \<and>
         serial_out (snd (get_tokens (Some 0) (Suc (length ts)) st)) = serial_out st"
proof -
  have p: "pending_tokens (Some 0) st = ts"
    using assms(1) by (simp add: pending_tokens_def)
  have l: "\<forall>t \<in> set ts. length t < ARG_BUF_SIZE"
    using assms(2) by (auto simp: ARG_BUF_SIZE_def)
  show ?thesis
    by (rule get_tokens_pending [OF p l])
qed

theorem tokens_in_order_witness:
  "fst (get_tokens (Some 0) (Suc (length [''pw'', ''13'', ''1''])) (typed ''  pw  13 1 '')) =
     [''pw'', ''13'', ''1''] @ [[]]"
proof -
  have s: "split_tokens (cstr (line_buf (typed ''  pw  13 1 '')) 0) = [''pw'', ''13'', ''1'']"
    by code_simp
  have l: "\<forall>t \<in> set [''pw'', ''13'', ''1'']. length t \<le> ARG_BUF_SIZE - 1"
    by (simp add: ARG_BUF_SIZE_def)
  show ?thesis
    using tokens_in_order [OF s l] by (rule conjunct1)
qed

section \<open>Command handlers\<close>

lemma hw_simps [simp]:
  "hw_log (hw c st) = hw_log st @ [c]"
  "serial_out (hw c st) = serial_out st"
  "error_flag (hw c st) = error_flag st"
  "args (hw c st) = args st"
  "line_buf (hw c st) = line_buf st"
  by (simp_all add: hw_def)

lemma args_is_get_token:
  "s \<noteq> [] \<Longrightarrow> length s < ARG_BUF_SIZE \<Longrightarrow>
   args_is (get_token i st) s = (next_token i st = Some s)"
  by (auto simp: args_is_def get_token_cstr_args split: option.splits)

lemma atoi_Nil [simp]: "atoi [] = 0"
  by (simp add: atoi_def int16_def)


lemma cmd_spistart_serial_out:
  "serial_out (snd (cmd_spistart st)) =
     serial_out st @
     (if too_long None st then ''Token too long.'' @ [CR_CHAR, LF_CHAR] else []) @
     (if too_long None (get_token None st) then ''Token too long.'' @ [CR_CHAR, LF_CHAR] else [])"
  by (simp add: cmd_spistart_def Let_def get_token_serial_out)

lemma read_input_frame [simp]:
  "pin_in (snd (snd (read_input bs st))) = pin_in st"
  "ram_str (snd (snd (read_input bs st))) = ram_str st"
  "hw_log (snd (snd (read_input bs st))) = hw_log st"
  by (induction bs arbitrary: st)
     (simp_all add: Let_def send_prompt_def Serial_print_def)

lemma boot_env [simp]:
  "pin_in boot = example_pins" "ram_str boot = example_ram" "hw_log boot = []"
  by (simp_all add: boot_def PinCLI_init_def send_prompt_def Serial_print_def Serial_println_def)

lemma typed_env [simp]:
  "pin_in (typed l) = example_pins" "ram_str (typed l) = example_ram" "hw_log (typed l) = []"
  by (simp_all add: typed_def)

lemma parse_cmd_env [simp]:
  "pin_in (parse_cmd st) = pin_in st" "ram_str (parse_cmd st) = ram_str st"
  "hw_log (parse_cmd st) = hw_log st"
  by (simp_all add: parse_cmd_def)

lemma uint8_small [simp]: "uint8 0 = 0" "uint8 7 = 7" "uint8 13 = 13"
  by (simp_all add: uint8_def)


lemma strtok_ram_update:
  "strtok i (st\<lparr>ram_str := r\<rparr>) = (fst (strtok i st), (snd (strtok i st))\<lparr>ram_str := r\<rparr>)"
  by (simp add: strtok_def Let_def split: option.splits)

lemma too_long_ram_update [simp]: "too_long i (st\<lparr>ram_str := r\<rparr>) = too_long i st"
  by (simp add: too_long_def next_token_def strtok_ram_update split: prod.splits option.splits)



text \<open>
  Claim C9, as amended. \<^verbatim>\<open>cmd_spistart\<close> returns 0 and makes four hardware calls:
  the chip-select pin becomes an output, the bus is initialised, the transaction is
  opened at 1 MHz, and chip-select is driven low. The order is LSB-first only for the
  token \<open>lsbfirst\<close>, and MSB-first (the default) for \<open>msbfirst\<close> and for every other,
  missing or too long token; the mode is the one the second token names and mode 0 (the
  default) otherwise. The handler prints nothing of its own; what appears on the serial
  port during the call is the notice \<open>Token too long.\<close> of the token extraction, once for
  each of the two tokens that has \<open>ARG_BUF_SIZE\<close> bytes or more.
\<close>

theorem spistart_defaults:
  "fst (cmd_spistart st) = Some 0 \<and>
   hw_log (snd (cmd_spistart st)) =
     hw_log st @
     [PinMode SPI_SSPIN OUTPUT, SPI_begin,
      SPI_beginTransaction 1000000
        (if next_token None st = Some ''lsbfirst'' then LSBFIRST else MSBFIRST)
        (if next_token None (get_token None st) = Some ''mode1'' then SPI_MODE1
         else if next_token None (get_token None st) = Some ''mode2'' then SPI_MODE2
         else if next_token None (get_token None st) = Some ''mode3'' then SPI_MODE3
         else SPI_MODE0),
      DigitalWrite SPI_SSPIN LOW] \<and>
   serial_out (snd (cmd_spistart st)) =
     serial_out st @
     (if too_long None st then ''Token too long.'' @ [CR_CHAR, LF_CHAR] else []) @
     (if too_long None (get_token None st) then ''Token too long.'' @ [CR_CHAR, LF_CHAR] else [])"
  by (simp add: cmd_spistart_def Let_def spistart_arg1_def spistart_arg2_def
        args_is_get_token ARG_BUF_SIZE_def SPI_ORDER_def SPI_MODE_def SPI_SPEED_def
        get_token_serial_out)


theorem spistart_defaults_witness:
  "hw_log (snd (cmd_spistart (parse_cmd (typed ''spistart fast mode3'')))) =
     [PinMode SPI_SSPIN OUTPUT, SPI_begin,
      SPI_beginTransaction 1000000 MSBFIRST SPI_MODE3,
      DigitalWrite SPI_SSPIN LOW] \<and>
   serial_out (snd (cmd_spistart (parse_cmd (typed ''spistart fast mode3'')))) =
     serial_out (parse_cmd (typed ''spistart fast mode3''))"
proof -
  have h: "hw_log (parse_cmd (typed ''spistart fast mode3'')) = []"
    "next_token None (parse_cmd (typed ''spistart fast mode3'')) = Some ''fast''"
    "next_token None (get_token None (parse_cmd (typed ''spistart fast mode3''))) = Some ''mode3''"
    "\<not> too_long None (parse_cmd (typed ''spistart fast mode3''))"
    "\<not> too_long None (get_token None (parse_cmd (typed ''spistart fast mode3'')))"
    by code_simp+
  show ?thesis
    using spistart_defaults [of "parse_cmd (typed ''spistart fast mode3'')"]
    by (simp add: h)
qed


text \<open>
  Claim C9 as stated fails: an order token of 16 bytes is not one of the two names, the
  default order is used, and still the call prints an error line.
\<close>

theorem spistart_long_token_is_reported:
  "next_token None (parse_cmd (typed ''spistart aaaaaaaaaaaaaaaa mode0'')) =
     Some ''aaaaaaaaaaaaaaaa'' \<and>
   serial_out (snd (cmd_spistart (parse_cmd (typed ''spistart aaaaaaaaaaaaaaaa mode0'')))) =
     serial_out (parse_cmd (typed ''spistart aaaaaaaaaaaaaaaa mode0'')) @
     ''Token too long.'' @ [CR_CHAR, LF_CHAR]"
proof -
  have h: "next_token None (parse_cmd (typed ''spistart aaaaaaaaaaaaaaaa mode0'')) =
             Some ''aaaaaaaaaaaaaaaa''"
    "too_long None (parse_cmd (typed ''spistart aaaaaaaaaaaaaaaa mode0''))"
    "\<not> too_long None (get_token None (parse_cmd (typed ''spistart aaaaaaaaaaaaaaaa mode0'')))"
    by code_simp+
  show ?thesis
    by (simp add: cmd_spistart_serial_out h)
qed





text \<open>
  Claim C1 does not hold of the code: \<^verbatim>\<open>cmd_pr\<close> passes \<^verbatim>\<open>args[1]\<close>, one byte,
  where \<^verbatim>\<open>atoi\<close> expects the string \<^verbatim>\<open>args\<close>. For the line \<open>pr 7\<close> that byte is
  the null after the digit, so \<^verbatim>\<open>atoi\<close> reads the string at address 0 and not the
  token. On the example board (address 0 holds a null, pin 7 reads low, pin 0 high) the
  handler reads pin 0 and prints 1, where the claim asks for pin 7 and 0.
\<close>

theorem pr_reads_wrong_pin:
  "cmd_pr (parse_cmd (typed ''pr 7'')) =
     (Some 1,
      Serial_println ''1'' (hw (DigitalRead 0) (get_token None (parse_cmd (typed ''pr 7''))))) \<and>
   next_token None (parse_cmd (typed ''pr 7'')) = Some ''7'' \<and>
   example_pins 7 = LOW"
proof -
  have t: "next_token None (parse_cmd (typed ''pr 7'')) = Some ''7''"
    by code_simp
  have "args (get_token None (parse_cmd (typed ''pr 7''))) ! 1 = NUL"
    by code_simp
  then have a: "args (get_token None (parse_cmd (typed ''pr 7''))) ! Suc 0 = NUL"
    by simp
  have p: "char_to_ptr NUL = 0"
    by (simp add: char_to_ptr_def NUL_def)
  have v: "example_pins 0 = HIGH" "example_pins 7 = LOW" "LOW \<noteq> HIGH" "example_ram 0 = []"
    by (simp_all add: example_pins_def example_ram_def LOW_def HIGH_def)
  show ?thesis
    by (simp add: cmd_pr_def Let_def a p v t)
qed

section \<open>Reachable states\<close>

text \<open>
  The line buffer of every state the sketch reaches ends in a null, so each C string
  of the line ends inside the buffer, and one pass of the loop keeps the invariant.
\<close>

lemma line_inv_terminated:
  assumes "line_inv st"
  shows "line_buf st ! (LINE_BUF_SIZE - 1) = NUL"
proof -
  from assms have len: "length (line_buf st) = LINE_BUF_SIZE" and lt: "cp st < LINE_BUF_SIZE"
    and z: "drop (cp st) (line_buf st) = replicate (LINE_BUF_SIZE - cp st) NUL"
    by (simp_all add: line_inv_def)
  have "line_buf st ! (LINE_BUF_SIZE - 1) =
          drop (cp st) (line_buf st) ! (LINE_BUF_SIZE - 1 - cp st)"
    using len lt by simp
  also have "\<dots> = NUL"
    unfolding z using lt by simp
  finally show ?thesis .
qed

lemma cstr_inside:
  assumes "line_buf st ! (LINE_BUF_SIZE - 1) = NUL" and "length (line_buf st) = LINE_BUF_SIZE"
    and "s < LINE_BUF_SIZE"
  shows "s + length (cstr (line_buf st) s) < LINE_BUF_SIZE"
proof (rule ccontr)
  assume "\<not> s + length (cstr (line_buf st) s) < LINE_BUF_SIZE"
  then have n: "LINE_BUF_SIZE - 1 - s < length (cstr (line_buf st) s)"
    using assms(3) by simp
  have "cstr (line_buf st) s ! (LINE_BUF_SIZE - 1 - s) = drop s (line_buf st) ! (LINE_BUF_SIZE - 1 - s)"
    using n unfolding cstr_def by (rule takeWhile_nth)
  also have "\<dots> = NUL"
    using assms by simp
  finally have "NUL \<in> set (cstr (line_buf st) s)"
    using n by (metis nth_mem)
  then show False by (simp add: cstr_no_NUL)
qed

lemma PinCLI_inv: "line_inv st \<Longrightarrow> line_inv (snd (PinCLI inp st))"
proof -
  assume inv: "line_inv st"
  obtain ret rest st1 where r: "read_input inp st = (ret, rest, st1)"
    by (rule prod_cases3)
  have 1: "line_inv st1"
    using read_input_inv [OF inv, of inp] by (simp add: r)
  have 2: "line_inv (x\<lparr>line_buf := replicate LINE_BUF_SIZE NUL, cp := 0, args := a\<rparr>)" for x a
    by (simp add: line_inv_def LINE_BUF_SIZE_def)
  have 3: "line_inv (x\<lparr>error_flag := f\<rparr>) = line_inv x" for x f
    by (simp add: line_inv_def)
  show ?thesis
    using 1 by (simp add: PinCLI_def r Let_def send_prompt_def Serial_print_def 2 3)
qed

lemma boot_inv: "line_inv boot \<and> length (args boot) = ARG_BUF_SIZE"
  by (simp add: boot_def PinCLI_init_def line_inv_def send_prompt_def Serial_print_def
        Serial_println_def LINE_BUF_SIZE_def)

end
